theory Spec2Isabelle
  imports Complex_Main "HOL-Library.Signed_Division" "HOL-Library.Log_Nat"
begin

section \<open>Data model of \<open>src/utils/guitarChords.ts\<close>\<close>

text \<open>
  Pitch classes, fret numbers and string indices are JavaScript numbers that only ever hold
  integers here; they are modelled as \<open>int\<close> (indices and counts as \<open>nat\<close>). A fret entry
  is a number or the string \<open>'x'\<close>. Scores are the only non-integral numbers of the module
  (\<open>minFret * 0.2\<close>, \<open>startFret * 0.3\<close>). They are IEEE 754 doubles: a finite double is
  modelled by the rational number it denotes, and the one infinite value the source produces
  is a value of its own.
\<close>

type_synonym PitchClass = int

datatype FretValue = Muted | Fret int

datatype number = Finite rat | PositiveInfinity

record CandidateFret =
  cf_fret :: int
  cf_pitchClass :: PitchClass

record FretSpan =
  span_min :: int
  span_max :: int

record ChordVoicing =
  v_frets :: "FretValue list"
  v_stringPitches :: "PitchClass option list"
  v_fretSpan :: FretSpan
  v_windowStart :: int
  v_windowEnd :: int

record ScoredVoicing =
  sv_voicing :: ChordVoicing
  sv_score :: number

record Barre =
  b_fret :: int
  b_fromString :: nat
  b_toString :: nat
  b_finger :: int

record ChordDiagramShape =
  sh_frets :: "FretValue list"
  sh_fingers :: "int option list"
  sh_startFret :: int
  sh_barre :: "Barre option"

definition STANDARD_TUNING :: "PitchClass list" where
  "STANDARD_TUNING = [4, 9, 2, 7, 11, 4]"

definition TOTAL_FRETS :: int where
  "TOTAL_FRETS = 12"

definition WINDOW_FRET_SPAN :: int where
  "WINDOW_FRET_SPAN = 3"

section \<open>Numeric helpers\<close>

text \<open>
  JavaScript's \<open>%\<close> truncates towards zero (the result has the sign of the dividend):
  that is \<open>smod\<close>, not \<open>mod\<close>.
\<close>

definition normalizePitch :: "int \<Rightarrow> PitchClass" where
  "normalizePitch v = ((v smod 12) + 12) smod 12"

text \<open>
  \<open>Math.min(...xs)\<close> and \<open>Math.max(...xs)\<close>. Every call of the source is behind a guard
  that makes the list non-empty (a length test, or the active-string count), and the
  model keeps each guard.
\<close>

definition Math_min :: "'a::linorder list \<Rightarrow> 'a" where
  "Math_min xs = Min (set xs)"

definition Math_max :: "'a::linorder list \<Rightarrow> 'a" where
  "Math_max xs = Max (set xs)"

subsection \<open>Double arithmetic\<close>

text \<open>
  A product or a sum of doubles is the exact result rounded to the nearest double, a tie
  going to the even significand. \<open>roundToDouble\<close> does this rounding for a significand
  of 53 bits: \<open>binaryExponent q\<close> is the \<open>e\<close> with \<open>2 powi e \<le> \<bar>q\<bar> < 2 powi (e + 1)\<close>, the
  doubles between these bounds are the multiples of \<open>2 powi (e - 52)\<close>, and \<open>q\<close> goes to the
  nearest multiple. The range of
  the exponent is not limited: the numbers of this module are sums and products of safe
  integers with 0.2 and 0.3, far from overflow and from the subnormal range. A decimal
  literal of the source is the double nearest to it: \<open>0.2\<close> is \<open>roundToDouble 0.2\<close>.
  Integers are doubles as they are, and sums of integers are exact.
\<close>

definition roundHalfEven :: "rat \<Rightarrow> int" where
  "roundHalfEven q =
     (let f = \<lfloor>q\<rfloor>; d = q - of_int f
      in if d < 1 / 2 then f else if 1 / 2 < d then f + 1 else if even f then f else f + 1)"

definition binaryExponent :: "rat \<Rightarrow> int" where
  "binaryExponent q =
     (let (n, d) = quotient_of \<bar>q\<bar>; k = bitlen n - bitlen d
      in if 2 powi k \<le> \<bar>q\<bar> then k else k - 1)"

definition roundToDouble :: "rat \<Rightarrow> rat" where
  "roundToDouble q =
     (if q = 0 then 0
      else let ulp = 2 powi (binaryExponent q - 52)
           in of_int (roundHalfEven (q / ulp)) * ulp)"

text \<open>
  \<open>a + r\<close> for a finite double \<open>r\<close>, and \<open>a < b\<close>. Doubles compare as the numbers they
  denote.
\<close>

fun number_add :: "number \<Rightarrow> rat \<Rightarrow> number" where
  "number_add (Finite a) r = Finite (roundToDouble (a + r))"
| "number_add PositiveInfinity r = PositiveInfinity"

fun number_less :: "number \<Rightarrow> number \<Rightarrow> bool" where
  "number_less (Finite a) (Finite b) = (a < b)"
| "number_less (Finite a) PositiveInfinity = True"
| "number_less PositiveInfinity b = False"

text \<open>
  The comparator \<open>(a, b) => a.score - b.score\<close> is negative exactly when
  \<open>number_less a b\<close>: the rounded difference of two doubles has the sign of the exact
  difference and is zero only for equal doubles, and \<open>Infinity - Infinity\<close> is \<open>NaN\<close>, which
  a sort treats as 0. So \<open>a\<close> may stay in front of \<open>b\<close> exactly when \<open>b\<close> is not less than
  \<open>a\<close>.
\<close>

definition number_le :: "number \<Rightarrow> number \<Rightarrow> bool" where
  "number_le a b = (\<not> number_less b a)"

text \<open>
  \<open>Array.prototype.sort\<close> is stable and the comparator is a consistent ordering, so the
  result is the stable sort by score: insertion from the right, each element going in front of
  the first element that is not smaller.
\<close>

fun insertByScore :: "ScoredVoicing \<Rightarrow> ScoredVoicing list \<Rightarrow> ScoredVoicing list" where
  "insertByScore a [] = [a]"
| "insertByScore a (b # bs) =
     (if number_le (sv_score a) (sv_score b) then a # b # bs else b # insertByScore a bs)"

definition sortByScore :: "ScoredVoicing list \<Rightarrow> ScoredVoicing list" where
  "sortByScore xs = foldr insertByScore xs []"

section \<open>Strings of fret patterns\<close>

text \<open>
  \<open>strings.join('-')\<close> converts every entry with \<open>String\<close>: a number in decimal, \<open>'x'\<close>
  as it is.
\<close>

definition digitChar :: "nat \<Rightarrow> char" where
  "digitChar d = char_of (48 + d)"

fun natToString :: "nat \<Rightarrow> string" where
  "natToString n = (if n < 10 then [digitChar n] else natToString (n div 10) @ [digitChar (n mod 10)])"

declare natToString.simps [simp del]

definition numberToString :: "int \<Rightarrow> string" where
  "numberToString n = (if n < 0 then CHR ''-'' # natToString (nat (- n)) else natToString (nat n))"

fun fretToString :: "FretValue \<Rightarrow> string" where
  "fretToString Muted = ''x''"
| "fretToString (Fret n) = numberToString n"

fun joinWith :: "string \<Rightarrow> string list \<Rightarrow> string" where
  "joinWith sep [] = []"
| "joinWith sep [s] = s"
| "joinWith sep (s # t # rest) = s @ sep @ joinWith sep (t # rest)"

section \<open>Chord intervals\<close>

definition getFifthIntervals :: "int list \<Rightarrow> int list" where
  "getFifthIntervals intervals = filter (\<lambda>interval. interval = 6 \<or> interval = 7 \<or> interval = 8) intervals"

definition getRequiredIntervals :: "int list \<Rightarrow> int list" where
  "getRequiredIntervals intervals =
     (let third = find (\<lambda>interval. interval = 3 \<or> interval = 4) intervals;
          fifths = getFifthIntervals intervals
      in [0] @ (case third of Some t \<Rightarrow> [t] | None \<Rightarrow> []) @ fifths)"

definition hasFifth :: "ChordVoicing \<Rightarrow> PitchClass \<Rightarrow> int list \<Rightarrow> bool" where
  "hasFifth voicing rootPc intervals =
     (let fifthIntervals = set (getFifthIntervals intervals)
      in list_ex (\<lambda>pitch. case pitch of
                      None \<Rightarrow> False
                    | Some p \<Rightarrow> normalizePitch (p - rootPc) \<in> fifthIntervals)
           (v_stringPitches voicing))"

section \<open>Scoring\<close>

text \<open>\<open>frets.filter((fret) => fret !== 'x') as number[]\<close>\<close>

fun fretNumbers :: "FretValue list \<Rightarrow> int list" where
  "fretNumbers [] = []"
| "fretNumbers (Muted # rest) = fretNumbers rest"
| "fretNumbers (Fret n # rest) = n # fretNumbers rest"

text \<open>The loop over \<open>i\<close> and \<open>i + 1\<close> that accumulates \<open>jumpPenalty\<close>.\<close>

fun jumpPenalty :: "FretValue list \<Rightarrow> int" where
  "jumpPenalty (current # next # rest) =
     (case (current, next) of
        (Fret c, Fret n) \<Rightarrow> (let diff = \<bar>c - n\<bar> in if diff > 3 then diff - 3 else 0)
      | _ \<Rightarrow> 0) + jumpPenalty (next # rest)"
| "jumpPenalty _ = 0"

text \<open>\<open>findIndex\<close>: \<open>None\<close> stands for the result \<open>-1\<close>.\<close>

fun findIndex :: "('a \<Rightarrow> bool) \<Rightarrow> 'a list \<Rightarrow> nat option" where
  "findIndex P [] = None"
| "findIndex P (x # xs) = (if P x then Some 0 else map_option Suc (findIndex P xs))"

text \<open>
  \<open>bassPitch\<close> is \<open>stringPitches[bassIndex]\<close>: a read past the end of the array gives
  \<open>undefined\<close>, which is neither \<open>null\<close> nor equal to the root, so it costs the penalty.
\<close>

definition getVoicingScore :: "ChordVoicing \<Rightarrow> PitchClass \<Rightarrow> int \<Rightarrow> number" where
  "getVoicingScore voicing rootPc targetStrings =
     (let frets = fretNumbers (v_frets voicing) in
      if frets = [] then PositiveInfinity
      else
        let minFret = Math_min frets;
            maxFret = Math_max frets;
            spanPenalty = (maxFret - minFret) * 2;
            mutedCount = int (length (filter (\<lambda>fret. fret = Muted) (v_frets voicing)));
            jump = jumpPenalty (v_frets voicing);
            bassIndex = findIndex (\<lambda>fret. fret \<noteq> Muted) (v_frets voicing);
            bassPenalty =
              (case bassIndex of
                 None \<Rightarrow> 0
               | Some i \<Rightarrow>
                   if i < length (v_stringPitches voicing)
                   then (case v_stringPitches voicing ! i of
                           None \<Rightarrow> 0
                         | Some bassPitch \<Rightarrow> if bassPitch \<noteq> rootPc then 2 else 0)
                   else 2);
            stringPenalty = \<bar>targetStrings - int (length frets)\<bar>;
            positionPenalty = roundToDouble (of_int minFret * roundToDouble 0.2)
        in Finite (roundToDouble
                     (of_int (spanPenalty + jump + mutedCount + bassPenalty + stringPenalty)
                      + positionPenalty)))"

section \<open>Voicing search\<close>

text \<open>
  The constants that the closures \<open>recordCandidate\<close> and \<open>walk\<close> capture, and the
  variables they mutate.
\<close>

record SearchEnv =
  env_root :: PitchClass
  env_windowStart :: int
  env_windowEnd :: int
  env_requiredIntervals :: "int set"
  env_candidatesPerString :: "CandidateFret list list"
  env_hasRequiredToneOnString :: "bool list"

record SearchState =
  selection :: "CandidateFret option list"
  voicings :: "ChordVoicing list"
  seenPatterns :: "string set"

definition minStrings :: nat where
  "minStrings = 3"

definition maxStrings :: nat where
  "maxStrings = 6"

definition chordIntervals :: "PitchClass list \<Rightarrow> PitchClass \<Rightarrow> int list" where
  "chordIntervals chordTones rootPc = sort (map (\<lambda>tone. normalizePitch (tone - rootPc)) chordTones)"

definition searchEnv :: "PitchClass list \<Rightarrow> PitchClass \<Rightarrow> int \<Rightarrow> SearchEnv" where
  "searchEnv chordTones rootPc startFret =
     (let allowOpen = (startFret \<le> 1);
          windowStart = (if allowOpen then 0 else startFret);
          windowEnd = min (windowStart + WINDOW_FRET_SPAN) TOTAL_FRETS;
          toneSet = set chordTones;
          intervals = chordIntervals chordTones rootPc;
          requiredIntervals = set (getRequiredIntervals intervals);
          candidatesPerString =
            map (\<lambda>openPitch.
                   [\<lparr>cf_fret = fret, cf_pitchClass = normalizePitch (openPitch + fret)\<rparr>.
                      fret \<leftarrow> [windowStart..windowEnd],
                      normalizePitch (openPitch + fret) \<in> toneSet])
                STANDARD_TUNING;
          hasRequiredToneOnString =
            map (\<lambda>openPitch.
                   list_ex (\<lambda>fret. normalizePitch (openPitch + fret - rootPc) \<in> requiredIntervals)
                     [windowStart..windowEnd])
                STANDARD_TUNING
      in \<lparr>env_root = rootPc, env_windowStart = windowStart, env_windowEnd = windowEnd,
          env_requiredIntervals = requiredIntervals,
          env_candidatesPerString = candidatesPerString,
          env_hasRequiredToneOnString = hasRequiredToneOnString\<rparr>)"

text \<open>\<open>selection.filter((value) => value !== null)\<close>\<close>

fun activeChoices :: "CandidateFret option list \<Rightarrow> CandidateFret list" where
  "activeChoices [] = []"
| "activeChoices (None # rest) = activeChoices rest"
| "activeChoices (Some c # rest) = c # activeChoices rest"

definition recordCandidate :: "SearchEnv \<Rightarrow> SearchState \<Rightarrow> SearchState" where
  "recordCandidate env st =
     (let activeStrings = activeChoices (selection st);
          activeCount = length activeStrings
      in
      if activeCount < minStrings \<or> activeCount > maxStrings then st
      else
        let intervalsPresent = set (map (\<lambda>choice. normalizePitch (cf_pitchClass choice - env_root env)) activeStrings);
            frets = map cf_fret activeStrings;
            missingRequired = (\<exists>interval \<in> env_requiredIntervals env. interval \<notin> intervalsPresent)
        in
        if missingRequired then st
        else
          let minFret = Math_min frets;
              maxFret = Math_max frets
          in
          if maxFret - minFret > WINDOW_FRET_SPAN then st
          else
            let strings = map (\<lambda>choice. case choice of Some c \<Rightarrow> Fret (cf_fret c) | None \<Rightarrow> Muted) (selection st)
            in
            if (\<exists>stringIndex < length strings.
                  strings ! stringIndex = Muted \<and> stringIndex < length (env_hasRequiredToneOnString env)
                  \<and> env_hasRequiredToneOnString env ! stringIndex) then st
            else
              let pattern = joinWith ''-'' (map fretToString strings) in
              if pattern \<in> seenPatterns st then st
              else
                let stringPitches = map (map_option cf_pitchClass) (selection st)
                in st\<lparr>seenPatterns := insert pattern (seenPatterns st),
                      voicings := voicings st @
                        [\<lparr>v_frets = strings, v_stringPitches = stringPitches,
                          v_fretSpan = \<lparr>span_min = minFret, span_max = maxFret\<rparr>,
                          v_windowStart = env_windowStart env, v_windowEnd = env_windowEnd env\<rparr>]\<rparr>)"

text \<open>
  \<open>walk\<close> is only entered as \<open>walk(0, 0)\<close> and calls itself with \<open>stringIndex + 1\<close> up
  to 6, where it records; the model returns the state unchanged for an index beyond 6, which
  no call reaches.
\<close>

function walk :: "SearchEnv \<Rightarrow> nat \<Rightarrow> nat \<Rightarrow> SearchState \<Rightarrow> SearchState" where
  "walk env stringIndex activeCount st =
     (if stringIndex = 6 then recordCandidate env st
      else if stringIndex > 6 then st
      else
        let remaining = 6 - stringIndex in
        if activeCount > maxStrings \<or> activeCount + remaining < minStrings then st
        else
          let candidates = env_candidatesPerString env ! stringIndex;
              st1 = walk env (stringIndex + 1) activeCount
                      (st\<lparr>selection := (selection st)[stringIndex := None]\<rparr>)
          in fold (\<lambda>candidate s.
                     let s1 = walk env (stringIndex + 1) (activeCount + 1)
                                (s\<lparr>selection := (selection s)[stringIndex := Some candidate]\<rparr>)
                     in s1\<lparr>selection := (selection s1)[stringIndex := None]\<rparr>)
               candidates st1)"
  by pat_completeness auto
termination
  by (relation "measure (\<lambda>(env, stringIndex, activeCount, st). 6 - stringIndex)") auto

declare walk.simps [simp del]

definition initialState :: SearchState where
  "initialState = \<lparr>selection = replicate 6 None, voicings = [], seenPatterns = {}\<rparr>"

definition enumeratedVoicings :: "PitchClass list \<Rightarrow> PitchClass \<Rightarrow> int \<Rightarrow> ChordVoicing list" where
  "enumeratedVoicings chordTones rootPc startFret =
     voicings (walk (searchEnv chordTones rootPc startFret) 0 0 initialState)"

definition generateChordVoicings :: "PitchClass list \<Rightarrow> PitchClass \<Rightarrow> int \<Rightarrow> ScoredVoicing list" where
  "generateChordVoicings chordTones rootPc startFret =
     (let intervals = chordIntervals chordTones rootPc;
          allVoicings = enumeratedVoicings chordTones rootPc startFret;
          hasCompleteTriad = list_ex (\<lambda>voicing. hasFifth voicing rootPc intervals) allVoicings;
          filteredVoicings =
            (if hasCompleteTriad then filter (\<lambda>voicing. hasFifth voicing rootPc intervals) allVoicings
             else allVoicings);
          scored = sortByScore
                     (map (\<lambda>voicing. \<lparr>sv_voicing = voicing, sv_score = getVoicingScore voicing rootPc 4\<rparr>)
                        filteredVoicings)
      in scored)"

section \<open>Fingering synthesis\<close>

text \<open>
  The entries \<open>{ fret, index }\<close> kept by
  \<open>typeof fret === 'number' && fret > 0\<close>, in string order.
\<close>

record FrettedNote =
  note_fret :: int
  note_index :: nat

definition frettedNotes :: "FretValue list \<Rightarrow> FrettedNote list" where
  "frettedNotes frets =
     List.map_filter
       (\<lambda>(fret, index). case fret of
            Fret n \<Rightarrow> if n > 0 then Some \<lparr>note_fret = n, note_index = index\<rparr> else None
          | Muted \<Rightarrow> None)
       (zip frets [0..<length frets])"

definition detectBarre :: "FretValue list \<Rightarrow> Barre option" where
  "detectBarre frets =
     (let fretted = frettedNotes frets in
      if fretted = [] then None
      else
        let minFret = Math_min (map note_fret fretted);
            barreStrings = map note_index (filter (\<lambda>note. note_fret note = minFret) fretted)
        in
        if length barreStrings < 2 then None
        else Some \<lparr>b_fret = minFret,
                   b_fromString = Math_min barreStrings,
                   b_toString = Math_max barreStrings,
                   b_finger = 1\<rparr>)"

text \<open>
  \<open>fingers[note.index] = finger\<close>: an index past the end extends a JavaScript array. That
  only happens for more than six strings; the slots in between, which JavaScript leaves
  empty, are filled with \<open>None\<close> here.
\<close>

definition arrayStore :: "'a option list \<Rightarrow> nat \<Rightarrow> 'a option \<Rightarrow> 'a option list" where
  "arrayStore xs i v =
     (if i < length xs then xs[i := v] else xs @ replicate (i - length xs) None @ [v])"

definition assignFingerNumbers :: "FretValue list \<Rightarrow> int option list" where
  "assignFingerNumbers frets =
     (let fretted = frettedNotes frets;
          fingers = replicate 6 None
      in
      if fretted = [] then fingers
      else
        let uniqueFrets = sort (remdups (map note_fret fretted)) in
        fold (\<lambda>(fret, idx) fingers.
                let finger = min (int idx + 1) 4 in
                fold (\<lambda>note fingers. arrayStore fingers (note_index note) (Some finger))
                  (filter (\<lambda>note. note_fret note = fret) fretted) fingers)
          (zip uniqueFrets [0..<length uniqueFrets]) fingers)"

text \<open>\<open>frets.filter((fret) => typeof fret === 'number' && fret > 0)\<close>\<close>

definition positiveFrets :: "FretValue list \<Rightarrow> int list" where
  "positiveFrets frets = filter (\<lambda>n. n > 0) (fretNumbers frets)"

definition buildChordShape :: "FretValue list \<Rightarrow> int option list option \<Rightarrow> ChordDiagramShape" where
  "buildChordShape frets providedFingers =
     (let numericFrets = positiveFrets frets;
          minFret = (if numericFrets \<noteq> [] then Math_min numericFrets else 1);
          startFret = (if minFret > 1 then minFret else 1);
          fingers = (case providedFingers of Some given \<Rightarrow> given | None \<Rightarrow> assignFingerNumbers frets);
          barre = detectBarre frets
      in \<lparr>sh_frets = frets, sh_fingers = fingers, sh_startFret = startFret, sh_barre = barre\<rparr>)"

section \<open>Best-position driver\<close>

text \<open>The body of the loop over \<open>startFret\<close>, as a function of the variable \<open>best\<close>.\<close>

definition bestStep ::
  "PitchClass list \<Rightarrow> PitchClass \<Rightarrow> int \<Rightarrow> ScoredVoicing option \<Rightarrow> ScoredVoicing option" where
  "bestStep chordTones rootPc startFret best =
     (let scored = generateChordVoicings chordTones rootPc startFret in
      case scored of
        [] \<Rightarrow> best
      | candidate # _ \<Rightarrow>
          let adjustedScore = number_add (sv_score candidate)
                                (roundToDouble (of_int startFret * roundToDouble 0.3)) in
          (case best of
             None \<Rightarrow> Some candidate
           | Some b \<Rightarrow>
               if number_less adjustedScore
                    (number_add (sv_score b)
                       (roundToDouble (of_int (v_windowStart (sv_voicing b)) * roundToDouble 0.3)))
               then Some candidate else Some b))"

definition scanBest :: "PitchClass list \<Rightarrow> PitchClass \<Rightarrow> ScoredVoicing option" where
  "scanBest chordTones rootPc = fold (bestStep chordTones rootPc) [1..TOTAL_FRETS] None"

definition getBestVoicingShape :: "PitchClass list \<Rightarrow> PitchClass \<Rightarrow> ChordDiagramShape" where
  "getBestVoicingShape chordTones rootPc =
     (case scanBest chordTones rootPc of
        None \<Rightarrow> buildChordShape [Muted, Muted, Muted, Muted, Muted, Muted] None
      | Some best \<Rightarrow> buildChordShape (v_frets (sv_voicing best)) None)"

section \<open>Diatonic chord diagrams\<close>

datatype SpellingMode = Auto | Sharps | Flats

datatype Tonality = Major | Minor

record CurrentKeyData =
  key_index :: int
  key_major :: string
  key_minor :: string

record DiatonicChordDiagram =
  d_id :: string
  d_degree :: string
  d_name :: string
  d_shape :: ChordDiagramShape

record PreferredShape =
  ps_frets :: "FretValue list"
  ps_fingers :: "int option list"

record ParsedNote =
  pn_letter :: char
  pn_accidental :: int
  pn_pitchClass :: PitchClass

record ScaleNote =
  sn_name :: string
  sn_pitchClass :: PitchClass

text \<open>
  \<open>TypeError\<close> is the exception of \<open>trimmed[0].toUpperCase()\<close> on an empty name.
  \<open>NotANumber\<close> marks a note letter outside \<open>LETTERS\<close>, where the source goes on
  computing with \<open>undefined\<close> and \<open>NaN\<close>: the model stops there, outside the integers.
\<close>

datatype error = TypeError | NotANumber

definition MAJOR_INTERVALS :: "int list" where
  "MAJOR_INTERVALS = [0, 2, 4, 5, 7, 9, 11]"

definition MINOR_INTERVALS :: "int list" where
  "MINOR_INTERVALS = [0, 2, 3, 5, 7, 8, 10]"

definition ROMAN_MAJOR :: "string list" where
  "ROMAN_MAJOR = [''I'', ''ii'', ''iii'', ''IV'', ''V'', ''vi'', ''vii'' @ [CHR 0xB0]]"

definition ROMAN_MINOR :: "string list" where
  "ROMAN_MINOR = [''i'', ''ii'' @ [CHR 0xB0], ''III'', ''iv'', ''v'', ''VI'', ''VII'']"

definition LETTERS :: "char list" where
  "LETTERS = [CHR ''C'', CHR ''D'', CHR ''E'', CHR ''F'', CHR ''G'', CHR ''A'', CHR ''B'']"

definition LETTER_TO_PC :: "char \<Rightarrow> PitchClass option" where
  "LETTER_TO_PC = map_of
     [(CHR ''C'', 0), (CHR ''D'', 2), (CHR ''E'', 4), (CHR ''F'', 5),
      (CHR ''G'', 7), (CHR ''A'', 9), (CHR ''B'', 11)]"

text \<open>
  \<open>PREFERRED_SHAPES[chordName]\<close> is a property read on an object literal. A chord name
  starts with a letter of \<open>LETTERS\<close>, so it is never the name of an inherited property, and
  the read is a lookup among the eleven entries.
\<close>

definition PREFERRED_SHAPES :: "string \<Rightarrow> PreferredShape option" where
  "PREFERRED_SHAPES = map_of
     [(''C'', \<lparr>ps_frets = [Muted, Fret 3, Fret 2, Fret 0, Fret 1, Fret 0],
              ps_fingers = [None, Some 3, Some 2, None, Some 1, None]\<rparr>),
      (''D'', \<lparr>ps_frets = [Muted, Muted, Fret 0, Fret 2, Fret 3, Fret 2],
              ps_fingers = [None, None, None, Some 1, Some 3, Some 2]\<rparr>),
      (''E'', \<lparr>ps_frets = [Fret 0, Fret 2, Fret 2, Fret 1, Fret 0, Fret 0],
              ps_fingers = [None, Some 2, Some 3, Some 1, None, None]\<rparr>),
      (''G'', \<lparr>ps_frets = [Fret 3, Fret 2, Fret 0, Fret 0, Fret 0, Fret 3],
              ps_fingers = [Some 2, Some 1, None, None, None, Some 3]\<rparr>),
      (''A'', \<lparr>ps_frets = [Muted, Fret 0, Fret 2, Fret 2, Fret 2, Fret 0],
              ps_fingers = [None, None, Some 1, Some 2, Some 3, None]\<rparr>),
      (''Am'', \<lparr>ps_frets = [Muted, Fret 0, Fret 2, Fret 2, Fret 1, Fret 0],
               ps_fingers = [None, None, Some 2, Some 3, Some 1, None]\<rparr>),
      (''Em'', \<lparr>ps_frets = [Fret 0, Fret 2, Fret 2, Fret 0, Fret 0, Fret 0],
               ps_fingers = [None, Some 2, Some 3, None, None, None]\<rparr>),
      (''Dm'', \<lparr>ps_frets = [Muted, Muted, Fret 0, Fret 2, Fret 3, Fret 1],
               ps_fingers = [None, None, None, Some 2, Some 3, Some 1]\<rparr>),
      (''F'', \<lparr>ps_frets = [Fret 1, Fret 3, Fret 3, Fret 2, Fret 1, Fret 1],
              ps_fingers = [Some 1, Some 3, Some 4, Some 2, Some 1, Some 1]\<rparr>),
      (''Bm'', \<lparr>ps_frets = [Muted, Fret 2, Fret 4, Fret 4, Fret 3, Fret 2],
               ps_fingers = [None, Some 1, Some 3, Some 4, Some 2, Some 1]\<rparr>),
      (''B'', \<lparr>ps_frets = [Muted, Fret 2, Fret 4, Fret 4, Fret 4, Fret 2],
              ps_fingers = [None, Some 1, Some 3, Some 3, Some 3, Some 1]\<rparr>)]"

definition stripMinorSuffix :: "string \<Rightarrow> string" where
  "stripMinorSuffix note = (if note \<noteq> [] \<and> last note = CHR ''m'' then butlast note else note)"

text \<open>
  \<open>trim\<close> removes white space at both ends; of the characters a one-byte \<open>char\<close> can hold
  these are tab, line feed, vertical tab, form feed, carriage return, space and the
  no-break space.
\<close>

definition isWhiteSpace :: "char \<Rightarrow> bool" where
  "isWhiteSpace c = (c \<in> set [CHR 0x09, CHR 0x0A, CHR 0x0B, CHR 0x0C, CHR 0x0D, CHR 0x20, CHR 0xA0])"

definition trim :: "string \<Rightarrow> string" where
  "trim s = rev (dropWhile isWhiteSpace (rev (dropWhile isWhiteSpace s)))"

text \<open>\<open>toUpperCase\<close> on one character: only \<open>a\<close> to \<open>g\<close> can become a key of \<open>LETTER_TO_PC\<close>.\<close>

definition toUpperCase :: "char \<Rightarrow> char" where
  "toUpperCase c =
     (if of_char (CHR ''a'') \<le> (of_char c :: nat) \<and> (of_char c :: nat) \<le> of_char (CHR ''z'')
      then char_of ((of_char c :: nat) - 32) else c)"

definition parseNoteName :: "string \<Rightarrow> error + ParsedNote" where
  "parseNoteName note =
     (let trimmed = trim note in
      case trimmed of
        [] \<Rightarrow> Inl TypeError
      | first # accidentalPart \<Rightarrow>
          let letter = toUpperCase first;
              accidental = fold (\<lambda>c acc. let acc1 = (if c = CHR ''#'' then acc + 1 else acc)
                                          in (if c = CHR ''b'' then acc1 - 1 else acc1))
                             accidentalPart (0 :: int)
          in (case LETTER_TO_PC letter of
                None \<Rightarrow> Inl NotANumber
              | Some letterPc \<Rightarrow>
                  Inr \<lparr>pn_letter = letter, pn_accidental = accidental,
                       pn_pitchClass = normalizePitch (letterPc + accidental)\<rparr>))"

definition formatAccidental :: "int \<Rightarrow> string" where
  "formatAccidental v =
     (if v = 0 then []
      else if v > 0 then replicate (nat v) (CHR ''#'')
      else replicate (nat \<bar>v\<bar>) (CHR ''b''))"

text \<open>\<open>LETTERS.indexOf\<close>, for a letter known to be in \<open>LETTERS\<close>.\<close>

definition indexOfLetter :: "char \<Rightarrow> nat" where
  "indexOfLetter l = length (takeWhile (\<lambda>x. x \<noteq> l) LETTERS)"

text \<open>
  The callback of \<open>intervals.map\<close> in \<open>getScaleNotes\<close>. The letter it looks up in
  \<open>LETTER_TO_PC\<close> is an entry of \<open>LETTERS\<close>, so the lookup succeeds.
\<close>

definition scaleNote :: "nat \<Rightarrow> PitchClass \<Rightarrow> int \<Rightarrow> nat \<Rightarrow> error + ScaleNote" where
  "scaleNote rootIndex rootPc interval degree =
     (let letterIndex = (rootIndex + degree) mod 7;
          letter = LETTERS ! letterIndex;
          targetPc = normalizePitch (rootPc + interval)
      in case LETTER_TO_PC letter of
           None \<Rightarrow> Inl NotANumber
         | Some basePc \<Rightarrow>
             let diff = normalizePitch (targetPc - basePc);
                 accidental = (if diff \<le> 6 then diff else diff - 12)
             in Inr \<lparr>sn_name = letter # formatAccidental accidental, sn_pitchClass = targetPc\<rparr>)"

fun collect :: "(error + 'a) list \<Rightarrow> error + 'a list" where
  "collect [] = Inr []"
| "collect (Inl e # rest) = Inl e"
| "collect (Inr x # rest) = (case collect rest of Inl e \<Rightarrow> Inl e | Inr xs \<Rightarrow> Inr (x # xs))"

definition getScaleNotes :: "string \<Rightarrow> int list \<Rightarrow> error + ScaleNote list" where
  "getScaleNotes rootName intervals =
     (case parseNoteName rootName of
        Inl e \<Rightarrow> Inl e
      | Inr parsed \<Rightarrow>
          let rootLetter = pn_letter parsed;
              rootPc = pn_pitchClass parsed;
              rootIndex = indexOfLetter rootLetter
          in collect (map (\<lambda>(interval, degree). scaleNote rootIndex rootPc interval degree)
                        (zip intervals [0..<length intervals])))"

datatype ChordQuality = QMajor | QMinor | QDiminished | QAugmented

definition getChordQuality :: "int list \<Rightarrow> ChordQuality" where
  "getChordQuality intervals =
     (if intervals = [0, 4, 7] then QMajor
      else if intervals = [0, 3, 7] then QMinor
      else if intervals = [0, 3, 6] then QDiminished
      else if intervals = [0, 4, 8] then QAugmented
      else QMajor)"

fun getChordSuffix :: "ChordQuality \<Rightarrow> string" where
  "getChordSuffix QMinor = ''m''"
| "getChordSuffix QDiminished = ''dim''"
| "getChordSuffix QAugmented = ''aug''"
| "getChordSuffix QMajor = []"

fun tonalityString :: "Tonality \<Rightarrow> string" where
  "tonalityString Major = ''major''"
| "tonalityString Minor = ''minor''"

text \<open>
  The callback of \<open>scaleNotes.map\<close> in \<open>getDiatonicChordDiagrams\<close>. A scale has seven
  notes, so the reads \<open>scaleNotes[(index + k) % 7]\<close> are in range.
\<close>

definition diatonicChordDiagram ::
  "Tonality \<Rightarrow> ScaleNote list \<Rightarrow> string list \<Rightarrow> ScaleNote \<Rightarrow> nat \<Rightarrow> DiatonicChordDiagram" where
  "diatonicChordDiagram tonality scaleNotes degreeLabels note index =
     (let chordTones = [sn_pitchClass (scaleNotes ! (index mod 7)),
                        sn_pitchClass (scaleNotes ! ((index + 2) mod 7)),
                        sn_pitchClass (scaleNotes ! ((index + 4) mod 7))];
          intervalsFromRoot = sort (map (\<lambda>tone. normalizePitch (tone - sn_pitchClass note)) chordTones);
          quality = getChordQuality intervalsFromRoot;
          suffix = getChordSuffix quality;
          chordName = sn_name note @ suffix;
          preferredShape = PREFERRED_SHAPES chordName;
          shape = (case preferredShape of
                     Some preferred \<Rightarrow> buildChordShape (ps_frets preferred) (Some (ps_fingers preferred))
                   | None \<Rightarrow> getBestVoicingShape chordTones (sn_pitchClass note))
      in \<lparr>d_id = tonalityString tonality @ ''-'' @ natToString index @ ''-'' @ chordName,
          d_degree = (if index < length degreeLabels then degreeLabels ! index
                      else natToString (index + 1)),
          d_name = chordName,
          d_shape = shape\<rparr>)"

definition getDiatonicChordDiagrams ::
  "CurrentKeyData \<Rightarrow> SpellingMode \<Rightarrow> Tonality \<Rightarrow> error + DiatonicChordDiagram list" where
  "getDiatonicChordDiagrams currentKey spellingMode tonality =
     (let keyName = (if tonality = Major then key_major currentKey else key_minor currentKey);
          rootName = stripMinorSuffix keyName;
          intervals = (if tonality = Major then MAJOR_INTERVALS else MINOR_INTERVALS);
          degreeLabels = (if tonality = Major then ROMAN_MAJOR else ROMAN_MINOR)
      in case getScaleNotes rootName intervals of
           Inl e \<Rightarrow> Inl e
         | Inr scaleNotes \<Rightarrow>
             Inr (map (\<lambda>(note, index). diatonicChordDiagram tonality scaleNotes degreeLabels note index)
                    (zip scaleNotes [0..<length scaleNotes])))"

section \<open>Notions used to state the properties\<close>

subsection \<open>Rounding a quotient of integers\<close>

text \<open>
  The integer nearest to \<open>n / d\<close> for a positive \<open>d\<close>, a tie going to the even one. The
  rounding to a double is computed with it.
\<close>

definition roundHalfEvenDiv :: "int \<Rightarrow> int \<Rightarrow> int" where
  "roundHalfEvenDiv n d =
     (let f = n div d; r = n mod d
      in if 2 * r < d then f else if d < 2 * r then f + 1 else if even f then f else f + 1)"

subsection \<open>Barre detection\<close>

text \<open>
  A string is fretted when its entry is a number greater than 0. The strings are numbered
  from 0, in array order.
\<close>

definition isFretted :: "FretValue \<Rightarrow> bool" where
  "isFretted f = (case f of Fret n \<Rightarrow> n > 0 | Muted \<Rightarrow> False)"

definition fretAt :: "FretValue list \<Rightarrow> nat \<Rightarrow> int" where
  "fretAt frets i = (case frets ! i of Fret n \<Rightarrow> n | Muted \<Rightarrow> 0)"

definition frettedStrings :: "FretValue list \<Rightarrow> nat set" where
  "frettedStrings frets = {i \<in> set [0..<length frets]. isFretted (frets ! i)}"

definition lowestFret :: "FretValue list \<Rightarrow> int" where
  "lowestFret frets = Min (fretAt frets ` frettedStrings frets)"

definition lowestFretStrings :: "FretValue list \<Rightarrow> nat set" where
  "lowestFretStrings frets = {i \<in> frettedStrings frets. fretAt frets i = lowestFret frets}"

subsection \<open>Selections of the search\<close>

text \<open>
  What \<open>recordCandidate\<close> computes from the array \<open>selection\<close>: the fret entries, the
  pattern string, the recorded voicing, and the conjunction of its acceptance tests.
\<close>

definition stringsOf :: "CandidateFret option list \<Rightarrow> FretValue list" where
  "stringsOf sel = map (\<lambda>choice. case choice of Some c \<Rightarrow> Fret (cf_fret c) | None \<Rightarrow> Muted) sel"

definition patternOf :: "FretValue list \<Rightarrow> string" where
  "patternOf strings = joinWith ''-'' (map fretToString strings)"

definition voicingOf :: "SearchEnv \<Rightarrow> CandidateFret option list \<Rightarrow> ChordVoicing" where
  "voicingOf env sel =
     \<lparr>v_frets = stringsOf sel,
      v_stringPitches = map (map_option cf_pitchClass) sel,
      v_fretSpan = \<lparr>span_min = Math_min (map cf_fret (activeChoices sel)),
                    span_max = Math_max (map cf_fret (activeChoices sel))\<rparr>,
      v_windowStart = env_windowStart env, v_windowEnd = env_windowEnd env\<rparr>"

definition accepts :: "SearchEnv \<Rightarrow> CandidateFret option list \<Rightarrow> bool" where
  "accepts env sel =
     (let activeStrings = activeChoices sel;
          frets = map cf_fret activeStrings
      in minStrings \<le> length activeStrings \<and> length activeStrings \<le> maxStrings
       \<and> (\<forall>interval \<in> env_requiredIntervals env.
             interval \<in> set (map (\<lambda>choice. normalizePitch (cf_pitchClass choice - env_root env))
                               activeStrings))
       \<and> Math_max frets - Math_min frets \<le> WINDOW_FRET_SPAN
       \<and> (\<forall>(choice, required) \<in> set (zip sel (env_hasRequiredToneOnString env)).
             choice = None \<longrightarrow> \<not> required))"

text \<open>A choice for string \<open>i\<close> is valid when it is a mute or one of the string's candidates.\<close>

definition validChoice :: "SearchEnv \<Rightarrow> nat \<Rightarrow> CandidateFret option \<Rightarrow> bool" where
  "validChoice env i choice =
     (case choice of None \<Rightarrow> True | Some c \<Rightarrow> c \<in> set (env_candidatesPerString env ! i))"

definition validSelection :: "SearchEnv \<Rightarrow> CandidateFret option list \<Rightarrow> bool" where
  "validSelection env sel = (length sel = 6 \<and> (\<forall>i < 6. validChoice env i (sel ! i)))"

text \<open>The invariant of the search state.\<close>

definition recorded :: "SearchEnv \<Rightarrow> SearchState \<Rightarrow> bool" where
  "recorded env st =
     ((\<forall>v \<in> set (voicings st). \<exists>sel. validSelection env sel \<and> accepts env sel \<and> v = voicingOf env sel)
      \<and> seenPatterns st = set (map (\<lambda>v. patternOf (v_frets v)) (voicings st))
      \<and> distinct (map (\<lambda>v. patternOf (v_frets v)) (voicings st)))"

text \<open>The callback of \<open>candidates.forEach\<close> in \<open>walk\<close>.\<close>

definition walkEach :: "SearchEnv \<Rightarrow> nat \<Rightarrow> nat \<Rightarrow> CandidateFret \<Rightarrow> SearchState \<Rightarrow> SearchState" where
  "walkEach env stringIndex activeCount candidate s =
     (let s1 = walk env (stringIndex + 1) (activeCount + 1)
                 (s\<lparr>selection := (selection s)[stringIndex := Some candidate]\<rparr>)
      in s1\<lparr>selection := (selection s1)[stringIndex := None]\<rparr>)"

subsection \<open>The window, the required intervals and the sounded tones\<close>

definition windowStartOf :: "int \<Rightarrow> int" where
  "windowStartOf startFret = (if startFret \<le> 1 then 0 else startFret)"

definition windowEndOf :: "int \<Rightarrow> int" where
  "windowEndOf startFret = min (windowStartOf startFret + 3) 12"

text \<open>The intervals of the chord tones above the root, in semitones modulo 12.\<close>

definition intervalSet :: "PitchClass list \<Rightarrow> PitchClass \<Rightarrow> int set" where
  "intervalSet chordTones rootPc = (\<lambda>tone. (tone - rootPc) mod 12) ` set chordTones"

text \<open>
  The required intervals: the root 0, the third (3 or 4) if the chord has one, and every
  fifth-family interval (6, 7, 8) of the chord. For a chord that holds both 3 and 4 the third
  is 3, the first one in the sorted interval list.
\<close>

definition RequiredIntervals :: "PitchClass list \<Rightarrow> PitchClass \<Rightarrow> int set" where
  "RequiredIntervals chordTones rootPc =
     (let I = intervalSet chordTones rootPc
      in {0} \<union> (if 3 \<in> I then {3} else if 4 \<in> I then {4} else {}) \<union> (I \<inter> {6, 7, 8}))"

definition soundedPitches :: "ChordVoicing \<Rightarrow> PitchClass set" where
  "soundedPitches v = Option.these (set (v_stringPitches v))"

definition soundedIntervals :: "ChordVoicing \<Rightarrow> PitchClass \<Rightarrow> int set" where
  "soundedIntervals v rootPc = (\<lambda>p. (p - rootPc) mod 12) ` soundedPitches v"

text \<open>String \<open>i\<close> can sound a required interval at some fret of the window.\<close>

definition canSoundRequired :: "PitchClass list \<Rightarrow> PitchClass \<Rightarrow> int \<Rightarrow> nat \<Rightarrow> bool" where
  "canSoundRequired chordTones rootPc startFret i =
     (\<exists>f \<in> {windowStartOf startFret..windowEndOf startFret}.
        (STANDARD_TUNING ! i + f - rootPc) mod 12 \<in> RequiredIntervals chordTones rootPc)"

text \<open>The span between the lowest and the highest fret of the sounded strings.\<close>

definition frettedSpan :: "ChordVoicing \<Rightarrow> int" where
  "frettedSpan v = Max (set (fretNumbers (v_frets v))) - Min (set (fretNumbers (v_frets v)))"

text \<open>
  A voicing sounds a fifth when one of its sounded intervals is a fifth-family interval
  (6, 7 or 8) of the chord.
\<close>

definition soundsFifth :: "PitchClass list \<Rightarrow> PitchClass \<Rightarrow> ChordVoicing \<Rightarrow> bool" where
  "soundsFifth chordTones rootPc v =
     (soundedIntervals v rootPc \<inter> (intervalSet chordTones rootPc \<inter> {6, 7, 8}) \<noteq> {})"

subsection \<open>A worked example: D flat major in first position\<close>

text \<open>
  The chord tones are D flat, F and A flat (1, 5, 8). With the window at frets 0 to 3 the
  A string has no chord tone and is muted; the other five strings are fretted.
\<close>

definition DbSelection :: "CandidateFret option list" where
  "DbSelection =
     [Some \<lparr>cf_fret = 1, cf_pitchClass = 5\<rparr>, None,
      Some \<lparr>cf_fret = 3, cf_pitchClass = 5\<rparr>, Some \<lparr>cf_fret = 1, cf_pitchClass = 8\<rparr>,
      Some \<lparr>cf_fret = 2, cf_pitchClass = 1\<rparr>, Some \<lparr>cf_fret = 1, cf_pitchClass = 5\<rparr>]"

definition DbVoicing :: ChordVoicing where
  "DbVoicing =
     \<lparr>v_frets = [Fret 1, Muted, Fret 3, Fret 1, Fret 2, Fret 1],
      v_stringPitches = [Some 5, None, Some 5, Some 8, Some 1, Some 5],
      v_fretSpan = \<lparr>span_min = 1, span_max = 3\<rparr>,
      v_windowStart = 0, v_windowEnd = 3\<rparr>"

text \<open>Its score is 8.2, that is, the double nearest to 8.2.\<close>

definition DbScored :: ScoredVoicing where
  "DbScored = \<lparr>sv_voicing = DbVoicing, sv_score = Finite (2308094809027379 / 281474976710656)\<rparr>"

subsection \<open>The score, term by term\<close>

text \<open>
  The sounded strings of a fret pattern are the indices whose entry is not muted, in
  ascending order.
\<close>

definition soundedStrings :: "FretValue list \<Rightarrow> nat list" where
  "soundedStrings frets = filter (\<lambda>i. frets ! i \<noteq> Muted) [0..<length frets]"

definition minSoundedFret :: "FretValue list \<Rightarrow> int" where
  "minSoundedFret frets = Min (fretAt frets ` set (soundedStrings frets))"

definition maxSoundedFret :: "FretValue list \<Rightarrow> int" where
  "maxSoundedFret frets = Max (fretAt frets ` set (soundedStrings frets))"

text \<open>The charge for strings \<open>i\<close> and \<open>i + 1\<close>: the fret difference beyond 3, when both sound.\<close>

definition jumpAt :: "FretValue list \<Rightarrow> nat \<Rightarrow> int" where
  "jumpAt frets i =
     (if frets ! i \<noteq> Muted \<and> frets ! Suc i \<noteq> Muted
         \<and> \<bar>fretAt frets i - fretAt frets (Suc i)\<bar> > 3
      then \<bar>fretAt frets i - fretAt frets (Suc i)\<bar> - 3 else 0)"

definition mutedStringCount :: "FretValue list \<Rightarrow> nat" where
  "mutedStringCount frets = card {i \<in> set [0..<length frets]. frets ! i = Muted}"

text \<open>The pitch class recorded for the sounded string of lowest index.\<close>

definition bassPitchOf :: "ChordVoicing \<Rightarrow> PitchClass option" where
  "bassPitchOf v = v_stringPitches v ! Min (set (soundedStrings (v_frets v)))"

text \<open>
  The integer terms of the score: twice the span, the jumps, the muted strings, 2 unless the
  lowest sounded string has the root, and the distance of the number of sounded strings
  from the target.
\<close>

definition integerPenalties :: "ChordVoicing \<Rightarrow> PitchClass \<Rightarrow> int \<Rightarrow> int" where
  "integerPenalties v rootPc targetStrings =
     (maxSoundedFret (v_frets v) - minSoundedFret (v_frets v)) * 2
     + (\<Sum>i \<leftarrow> [0..<length (v_frets v) - 1]. jumpAt (v_frets v) i)
     + int (mutedStringCount (v_frets v))
     + (if bassPitchOf v = Some rootPc then 0 else 2)
     + \<bar>targetStrings - int (length (soundedStrings (v_frets v)))\<bar>"

text \<open>
  The score is the sum of the integer terms and of the lowest sounded fret times 0.2, in
  the arithmetic of the program: the product is a double, and so is the sum.
\<close>

definition scoreOf :: "ChordVoicing \<Rightarrow> PitchClass \<Rightarrow> int \<Rightarrow> rat" where
  "scoreOf v rootPc targetStrings =
     roundToDouble
       (of_int (integerPenalties v rootPc targetStrings)
        + roundToDouble (of_int (minSoundedFret (v_frets v)) * roundToDouble 0.2))"

subsection \<open>Worked examples for the score\<close>

text \<open>
  The chord B, E, F sharp (11, 4, 6) on the root B, searched from starting fret 5: four
  strings at fret 7. Its integer terms are 2 and its score is 3.4000000000000004, the double
  that the sum of 2 and the double product of 7 and 0.2 rounds to.
\<close>

definition BsusSelection :: "CandidateFret option list" where
  "BsusSelection =
     [Some \<lparr>cf_fret = 7, cf_pitchClass = 11\<rparr>, Some \<lparr>cf_fret = 7, cf_pitchClass = 4\<rparr>,
      None, None,
      Some \<lparr>cf_fret = 7, cf_pitchClass = 6\<rparr>, Some \<lparr>cf_fret = 7, cf_pitchClass = 11\<rparr>]"

definition BsusVoicing :: ChordVoicing where
  "BsusVoicing =
     \<lparr>v_frets = [Fret 7, Fret 7, Muted, Muted, Fret 7, Fret 7],
      v_stringPitches = [Some 11, Some 4, None, None, Some 6, Some 11],
      v_fretSpan = \<lparr>span_min = 7, span_max = 7\<rparr>,
      v_windowStart = 5, v_windowEnd = 8\<rparr>"

definition BsusScored :: ScoredVoicing where
  "BsusScored = \<lparr>sv_voicing = BsusVoicing, sv_score = Finite (1914029841632461 / 562949953421312)\<rparr>"

text \<open>A fret pattern with two jumps of more than 3 frets; no search returns it.\<close>

definition jumpVoicing :: ChordVoicing where
  "jumpVoicing =
     \<lparr>v_frets = [Fret 1, Fret 6, Fret 2, Muted, Muted, Muted],
      v_stringPitches = [Some 5, Some 3, Some 4, None, None, None],
      v_fretSpan = \<lparr>span_min = 1, span_max = 6\<rparr>,
      v_windowStart = 0, v_windowEnd = 3\<rparr>"

definition allMuted :: ChordVoicing where
  "allMuted =
     \<lparr>v_frets = [Muted, Muted, Muted, Muted, Muted, Muted],
      v_stringPitches = [None, None, None, None, None, None],
      v_fretSpan = \<lparr>span_min = 0, span_max = 0\<rparr>,
      v_windowStart = 0, v_windowEnd = 3\<rparr>"

subsection \<open>The scan over the starting frets\<close>

text \<open>
  The score of a new candidate found at \<open>startFret\<close>, raised by \<open>startFret \<times> 0.3\<close>, and
  the score of the stored best, raised by 0.3 times the start of the window it was found in,
  both in the double arithmetic of the program.
\<close>

definition adjustedScore :: "ScoredVoicing \<Rightarrow> int \<Rightarrow> number" where
  "adjustedScore candidate startFret =
     number_add (sv_score candidate) (roundToDouble (of_int startFret * roundToDouble 0.3))"

definition storedScore :: "ScoredVoicing \<Rightarrow> number" where
  "storedScore b =
     number_add (sv_score b)
       (roundToDouble (of_int (v_windowStart (sv_voicing b)) * roundToDouble 0.3))"

text \<open>The candidate of a starting fret: the first result of its search, if there is one.\<close>

definition headAt :: "PitchClass list \<Rightarrow> PitchClass \<Rightarrow> int \<Rightarrow> ScoredVoicing option" where
  "headAt chordTones rootPc startFret =
     (case generateChordVoicings chordTones rootPc startFret of
        [] \<Rightarrow> None
      | candidate # _ \<Rightarrow> Some candidate)"

text \<open>
  The result \<open>b\<close> is the candidate of starting fret \<open>p\<close> and holds against the candidates of the
  starting frets 1 to \<open>n\<close>: when it was found its adjusted score was strictly below the stored
  score of every earlier candidate, and no later candidate has an adjusted score strictly
  below its stored score.
\<close>

definition winsScan :: "PitchClass list \<Rightarrow> PitchClass \<Rightarrow> int \<Rightarrow> int \<Rightarrow> ScoredVoicing \<Rightarrow> bool" where
  "winsScan chordTones rootPc n p b =
     (headAt chordTones rootPc p = Some b
      \<and> (\<forall>q \<in> {1..n}.
            case headAt chordTones rootPc q of
              None \<Rightarrow> True
            | Some c \<Rightarrow>
                (q < p \<longrightarrow> number_less (adjustedScore b p) (storedScore c))
                \<and> (p < q \<longrightarrow> \<not> number_less (adjustedScore c q) (storedScore b))))"

text \<open>
  Every way to mute each string or to give it one of its candidates, and the scored voicing
  that the search makes of a selection it accepts.
\<close>

definition allSelections :: "SearchEnv \<Rightarrow> CandidateFret option list list" where
  "allSelections env =
     product_lists (map (\<lambda>candidates. None # map Some candidates) (env_candidatesPerString env))"

definition scoredOf :: "SearchEnv \<Rightarrow> CandidateFret option list \<Rightarrow> ScoredVoicing" where
  "scoredOf env sel =
     \<lparr>sv_voicing = voicingOf env sel,
      sv_score = getVoicingScore (voicingOf env sel) (env_root env) 4\<rparr>"

text \<open>
  Two checks over the accepted selections of a starting fret: \<open>x\<close> has a score strictly below
  that of every other one, and none has an adjusted score strictly below the stored score
  of \<open>b\<close>.
\<close>

definition lowestAt :: "PitchClass list \<Rightarrow> PitchClass \<Rightarrow> int \<Rightarrow> ScoredVoicing \<Rightarrow> bool" where
  "lowestAt chordTones rootPc startFret x =
     (let env = searchEnv chordTones rootPc startFret
      in \<forall>y \<in> set (map (scoredOf env) (filter (accepts env) (allSelections env))).
           y = x \<or> number_less (sv_score x) (sv_score y))"

definition holdsAt :: "PitchClass list \<Rightarrow> PitchClass \<Rightarrow> int \<Rightarrow> ScoredVoicing \<Rightarrow> bool" where
  "holdsAt chordTones rootPc startFret b =
     (let env = searchEnv chordTones rootPc startFret;
          limit = storedScore b
      in \<forall>y \<in> set (map (scoredOf env) (filter (accepts env) (allSelections env))).
           \<not> number_less (adjustedScore y startFret) limit)"

definition mutedShape :: ChordDiagramShape where
  "mutedShape =
     \<lparr>sh_frets = [Muted, Muted, Muted, Muted, Muted, Muted],
      sh_fingers = [None, None, None, None, None, None],
      sh_startFret = 1, sh_barre = None\<rparr>"

definition soundedCount :: "FretValue list \<Rightarrow> nat" where
  "soundedCount frets = length (filter (\<lambda>f. f \<noteq> Muted) frets)"

subsection \<open>A first-position fingering of every major and minor triad\<close>

text \<open>
  For each root 0 to 11, frets within 0 to 3 that sound the major triad and the minor triad
  on that root; \<open>triads\<close> lists the roots with both fingerings.
\<close>

definition majorFingerings :: "FretValue list list" where
  "majorFingerings =
     [[Fret 0, Fret 3, Fret 2, Fret 0, Fret 1, Fret 0],
      [Fret 1, Muted, Fret 3, Fret 1, Fret 2, Fret 1],
      [Fret 2, Fret 0, Fret 0, Fret 2, Fret 3, Fret 2],
      [Fret 3, Fret 1, Fret 1, Fret 0, Muted, Fret 3],
      [Fret 0, Fret 2, Fret 2, Fret 1, Fret 0, Fret 0],
      [Fret 1, Fret 0, Fret 3, Fret 2, Fret 1, Fret 1],
      [Fret 2, Fret 1, Muted, Fret 3, Fret 2, Fret 2],
      [Fret 3, Fret 2, Fret 0, Fret 0, Fret 0, Fret 3],
      [Muted, Fret 3, Fret 1, Fret 1, Fret 1, Muted],
      [Fret 0, Fret 0, Fret 2, Fret 2, Fret 2, Fret 0],
      [Fret 1, Fret 1, Fret 0, Fret 3, Fret 3, Fret 1],
      [Fret 2, Fret 2, Fret 1, Muted, Fret 0, Fret 2]]"

definition minorFingerings :: "FretValue list list" where
  "minorFingerings =
     [[Fret 3, Fret 3, Fret 1, Fret 0, Fret 1, Fret 3],
      [Fret 0, Muted, Fret 2, Fret 1, Fret 2, Fret 0],
      [Fret 1, Fret 0, Fret 0, Fret 2, Fret 3, Fret 1],
      [Fret 2, Fret 1, Fret 1, Fret 3, Muted, Fret 2],
      [Fret 0, Fret 2, Fret 2, Fret 0, Fret 0, Fret 0],
      [Fret 1, Fret 3, Fret 3, Fret 1, Fret 1, Fret 1],
      [Fret 2, Fret 0, Muted, Fret 2, Fret 2, Fret 2],
      [Fret 3, Fret 1, Fret 0, Fret 0, Fret 3, Fret 3],
      [Muted, Fret 2, Fret 1, Fret 1, Fret 0, Muted],
      [Fret 0, Fret 0, Fret 2, Fret 2, Fret 1, Fret 0],
      [Fret 1, Fret 1, Fret 3, Fret 3, Fret 2, Fret 1],
      [Fret 2, Fret 2, Fret 0, Muted, Fret 0, Fret 2]]"

definition selectionFor :: "FretValue list \<Rightarrow> CandidateFret option list" where
  "selectionFor frets =
     map (\<lambda>(openPitch, f). case f of
              Muted \<Rightarrow> None
            | Fret n \<Rightarrow> Some \<lparr>cf_fret = n, cf_pitchClass = (openPitch + n) mod 12\<rparr>)
       (zip STANDARD_TUNING frets)"

definition majorTriad :: "PitchClass \<Rightarrow> PitchClass list" where
  "majorTriad rootPc = [rootPc, (rootPc + 4) mod 12, (rootPc + 7) mod 12]"

definition minorTriad :: "PitchClass \<Rightarrow> PitchClass list" where
  "minorTriad rootPc = [rootPc, (rootPc + 3) mod 12, (rootPc + 7) mod 12]"

definition fingeringAccepted :: "PitchClass list \<Rightarrow> PitchClass \<Rightarrow> FretValue list \<Rightarrow> bool" where
  "fingeringAccepted chordTones rootPc frets =
     (validSelection (searchEnv chordTones rootPc 1) (selectionFor frets)
      \<and> accepts (searchEnv chordTones rootPc 1) (selectionFor frets))"

text \<open>
  Two stored results to compare the worked example with: one with the score 20, and one
  with the score of the worked example and a window starting at fret 1, which is worth as
  much as the worked example found at starting fret 1.
\<close>

definition storedHigh :: ScoredVoicing where
  "storedHigh = \<lparr>sv_voicing = DbVoicing, sv_score = Finite 20\<rparr>"

definition storedTie :: ScoredVoicing where
  "storedTie = \<lparr>sv_voicing = DbVoicing\<lparr>v_windowStart := 1\<rparr>, sv_score = sv_score DbScored\<rparr>"

subsection \<open>A worked example: the positions of E flat with C\<close>

text \<open>
  The chord tones are C and E flat (0, 3) on the root E flat. The search from starting fret 1
  returns the shape x-3-1-x-1-x with the score 10.2. The search from starting fret 3 begins
  with the shape x-6-x-5-4-x, whose score is 8.8, and the search from starting fret 7 begins
  with the shape 8-x-x-8-x-8, whose score is 7.6. In exact arithmetic the last two come to 9.7
  with their position terms, \<open>8.8 + 3 \<times> 0.3\<close> and \<open>7.6 + 7 \<times> 0.3\<close>; in double arithmetic the
  first is 9.700000000000001 and the second is 9.7.
\<close>

definition EbOpenSelection :: "CandidateFret option list" where
  "EbOpenSelection =
     [None, Some \<lparr>cf_fret = 3, cf_pitchClass = 0\<rparr>, Some \<lparr>cf_fret = 1, cf_pitchClass = 3\<rparr>,
      None, Some \<lparr>cf_fret = 1, cf_pitchClass = 0\<rparr>, None]"

definition EbOpen :: ScoredVoicing where
  "EbOpen =
     \<lparr>sv_voicing =
        \<lparr>v_frets = [Muted, Fret 3, Fret 1, Muted, Fret 1, Muted],
         v_stringPitches = [None, Some 0, Some 3, None, Some 0, None],
         v_fretSpan = \<lparr>span_min = 1, span_max = 3\<rparr>,
         v_windowStart = 0, v_windowEnd = 3\<rparr>,
      sv_score = Finite (2871044762448691 / 281474976710656)\<rparr>"

definition EbLowSelection :: "CandidateFret option list" where
  "EbLowSelection =
     [None, Some \<lparr>cf_fret = 6, cf_pitchClass = 3\<rparr>, None,
      Some \<lparr>cf_fret = 5, cf_pitchClass = 0\<rparr>, Some \<lparr>cf_fret = 4, cf_pitchClass = 3\<rparr>, None]"

definition EbLow :: ScoredVoicing where
  "EbLow =
     \<lparr>sv_voicing =
        \<lparr>v_frets = [Muted, Fret 6, Muted, Fret 5, Fret 4, Muted],
         v_stringPitches = [None, Some 3, None, Some 0, Some 3, None],
         v_fretSpan = \<lparr>span_min = 4, span_max = 6\<rparr>,
         v_windowStart = 3, v_windowEnd = 6\<rparr>,
      sv_score = Finite (2476979795053773 / 281474976710656)\<rparr>"

definition EbHighSelection :: "CandidateFret option list" where
  "EbHighSelection =
     [Some \<lparr>cf_fret = 8, cf_pitchClass = 0\<rparr>, None, None,
      Some \<lparr>cf_fret = 8, cf_pitchClass = 3\<rparr>, None, Some \<lparr>cf_fret = 8, cf_pitchClass = 0\<rparr>]"

definition EbHigh :: ScoredVoicing where
  "EbHigh =
     \<lparr>sv_voicing =
        \<lparr>v_frets = [Fret 8, Muted, Muted, Fret 8, Muted, Fret 8],
         v_stringPitches = [Some 0, None, None, Some 3, None, Some 0],
         v_fretSpan = \<lparr>span_min = 8, span_max = 8\<rparr>,
         v_windowStart = 7, v_windowEnd = 10\<rparr>,
      sv_score = Finite (4278419646001971 / 562949953421312)\<rparr>"

subsection \<open>A worked example: the key of C major\<close>

definition CMajorKey :: CurrentKeyData where
  "CMajorKey = \<lparr>key_index = 0, key_major = ''C'', key_minor = ''Am''\<rparr>"

definition CMajorScale :: "ScaleNote list" where
  "CMajorScale =
     [\<lparr>sn_name = ''C'', sn_pitchClass = 0\<rparr>, \<lparr>sn_name = ''D'', sn_pitchClass = 2\<rparr>,
      \<lparr>sn_name = ''E'', sn_pitchClass = 4\<rparr>, \<lparr>sn_name = ''F'', sn_pitchClass = 5\<rparr>,
      \<lparr>sn_name = ''G'', sn_pitchClass = 7\<rparr>, \<lparr>sn_name = ''A'', sn_pitchClass = 9\<rparr>,
      \<lparr>sn_name = ''B'', sn_pitchClass = 11\<rparr>]"

text \<open>The diagram of the fourth degree of C major, the chord F.\<close>

definition FDiagram :: DiatonicChordDiagram where
  "FDiagram = diatonicChordDiagram Major CMajorScale ROMAN_MAJOR (CMajorScale ! 3) 3"

section \<open>Double arithmetic on integers\<close>

text \<open>
  The rounding of a rational \<open>n / d\<close> to a double, computed on the integers \<open>n\<close> and \<open>d\<close>.
\<close>

lemma roundHalfEven_div:
  assumes "0 < d"
  shows "roundHalfEven (of_int n / of_int d) = roundHalfEvenDiv n d"
proof -
  have f: "\<lfloor>(of_int n / of_int d :: rat)\<rfloor> = n div d"
    by (simp add: floor_divide_of_int_eq)
  have d0: "(0 :: rat) < of_int d"
    using assms by simp
  have "(of_int n :: rat) = of_int (n div d) * of_int d + of_int (n mod d)"
    by (simp flip: of_int_mult of_int_add)
  then have "(of_int n / of_int d :: rat)
               = (of_int (n div d) * of_int d + of_int (n mod d)) / of_int d"
    by (simp only:)
  also have "\<dots> = of_int (n div d) + of_int (n mod d) / of_int d"
    using d0 by (simp add: add_divide_distrib)
  finally have r: "(of_int n / of_int d :: rat) - of_int (n div d) = of_int (n mod d) / of_int d"
    by simp
  have "((of_int (n mod d) / of_int d :: rat) < 1 / 2)
          = ((of_int (n mod d) :: rat) < 1 / 2 * of_int d)"
    using d0 by (rule pos_divide_less_eq)
  also have "\<dots> = ((of_int (2 * (n mod d)) :: rat) < of_int d)"
    by (simp add: mult.commute)
  also have "\<dots> = (2 * (n mod d) < d)"
    by (rule of_int_less_iff)
  finally have lt: "((of_int (n mod d) / of_int d :: rat) < 1 / 2) = (2 * (n mod d) < d)" .
  have "((1 / 2 :: rat) < of_int (n mod d) / of_int d)
          = ((1 / 2 :: rat) * of_int d < of_int (n mod d))"
    using d0 by (rule pos_less_divide_eq)
  also have "\<dots> = ((of_int d :: rat) < of_int (2 * (n mod d)))"
    by (simp add: mult.commute)
  also have "\<dots> = (d < 2 * (n mod d))"
    by (rule of_int_less_iff)
  finally have gt: "((1 / 2 :: rat) < of_int (n mod d) / of_int d) = (d < 2 * (n mod d))" .
  show ?thesis
    unfolding roundHalfEven_def roundHalfEvenDiv_def Let_def f r lt gt ..
qed

lemma roundToDouble_code [code]:
  "roundToDouble q =
     (if q = 0 then 0
      else let s = binaryExponent q - 52; (n, d) = quotient_of q
           in if 0 \<le> s
              then of_int (roundHalfEvenDiv n (d * 2 ^ nat s) * 2 ^ nat s)
              else of_int (roundHalfEvenDiv (n * 2 ^ nat (- s)) d) / of_int (2 ^ nat (- s)))"
proof (cases "q = 0")
  case True
  then show ?thesis by (simp add: roundToDouble_def)
next
  case False
  obtain n d where nd: "quotient_of q = (n, d)"
    by (cases "quotient_of q")
  have d: "0 < d"
    using quotient_of_denom_pos [OF nd] .
  have q: "q = of_int n / of_int d"
    using quotient_of_div [OF nd] .
  let ?s = "binaryExponent q - 52"
  show ?thesis
  proof (cases "0 \<le> ?s")
    case True
    then have u: "(2 :: rat) powi ?s = of_int (2 ^ nat ?s)"
      by (simp add: power_int_def)
    have "q / of_int (2 ^ nat ?s) = of_int n / of_int (d * 2 ^ nat ?s)"
      unfolding q by simp
    moreover have "0 < d * 2 ^ nat ?s"
      using d by simp
    ultimately have "roundHalfEven (q / of_int (2 ^ nat ?s)) = roundHalfEvenDiv n (d * 2 ^ nat ?s)"
      using roundHalfEven_div by metis
    then show ?thesis
      using False True unfolding roundToDouble_def Let_def u nd by simp
  next
    case neg: False
    then have u: "(2 :: rat) powi ?s = 1 / of_int (2 ^ nat (- ?s))"
      by (simp add: power_int_def field_simps)
    have "q / (1 / of_int (2 ^ nat (- ?s))) = of_int (n * 2 ^ nat (- ?s)) / of_int d"
      unfolding q by simp
    then have "roundHalfEven (q / (1 / of_int (2 ^ nat (- ?s)))) = roundHalfEvenDiv (n * 2 ^ nat (- ?s)) d"
      using roundHalfEven_div [OF d] by metis
    then show ?thesis
      using False neg unfolding roundToDouble_def Let_def u nd by simp
  qed
qed

section \<open>Barre detection finds the strings that share the lowest fret\<close>

lemma frettedNotes_snoc:
  "frettedNotes (frets @ [f]) =
     frettedNotes frets @
       (if isFretted f
        then [\<lparr>note_fret = (case f of Fret n \<Rightarrow> n | Muted \<Rightarrow> 0), note_index = length frets\<rparr>]
        else [])"
  by (auto simp: frettedNotes_def isFretted_def List.map_filter_def split: FretValue.splits)

lemma frettedNotes_eq:
  "frettedNotes frets =
     map (\<lambda>i. \<lparr>note_fret = fretAt frets i, note_index = i\<rparr>)
       (filter (\<lambda>i. isFretted (frets ! i)) [0..<length frets])"
proof (induction frets rule: rev_induct)
  case Nil
  then show ?case by (simp add: frettedNotes_def List.map_filter_def)
next
  case (snoc f frets)
  have filt: "filter (\<lambda>i. isFretted ((frets @ [f]) ! i)) [0..<length frets]
            = filter (\<lambda>i. isFretted (frets ! i)) [0..<length frets]"
    by (rule filter_cong) (simp_all add: nth_append)
  have mp: "map (\<lambda>i. \<lparr>note_fret = fretAt (frets @ [f]) i, note_index = i\<rparr>)
              (filter (\<lambda>i. isFretted (frets ! i)) [0..<length frets])
          = map (\<lambda>i. \<lparr>note_fret = fretAt frets i, note_index = i\<rparr>)
              (filter (\<lambda>i. isFretted (frets ! i)) [0..<length frets])"
    by (rule map_cong) (simp_all add: fretAt_def nth_append)
  show ?case
    by (simp add: frettedNotes_snoc snoc filt mp) (simp add: fretAt_def)
qed

lemma fretted_set:
  "set (filter (\<lambda>i. isFretted (frets ! i)) [0..<length frets]) = frettedStrings frets"
  by (auto simp: frettedStrings_def)

lemma detectBarre_lowest:
  "detectBarre frets =
     (if frettedStrings frets \<noteq> {} \<and> card (lowestFretStrings frets) \<ge> 2
      then Some \<lparr>b_fret = lowestFret frets,
                 b_fromString = Min (lowestFretStrings frets),
                 b_toString = Max (lowestFretStrings frets),
                 b_finger = 1\<rparr>
      else None)"
proof -
  define idx where "idx = filter (\<lambda>i. isFretted (frets ! i)) [0..<length frets]"
  have fn: "frettedNotes frets = map (\<lambda>i. \<lparr>note_fret = fretAt frets i, note_index = i\<rparr>) idx"
    by (simp add: frettedNotes_eq idx_def)
  have sidx: "set idx = frettedStrings frets"
    unfolding idx_def by (rule fretted_set)
  have didx: "distinct idx"
    by (simp add: idx_def)
  have minf: "Math_min (map note_fret (frettedNotes frets)) = lowestFret frets"
    by (simp add: fn Math_min_def lowestFret_def sidx [symmetric] o_def)
  define bs where "bs = filter (\<lambda>i. fretAt frets i = lowestFret frets) idx"
  have bstr: "map note_index (filter (\<lambda>note. note_fret note = lowestFret frets) (frettedNotes frets)) = bs"
    by (simp add: fn bs_def filter_map o_def)
  have sbs: "set bs = lowestFretStrings frets"
    by (auto simp: bs_def sidx lowestFretStrings_def)
  have "distinct bs"
    by (simp add: bs_def didx)
  then have lbs: "length bs = card (lowestFretStrings frets)"
    using sbs distinct_card by fastforce
  have empty: "frettedNotes frets = [] \<longleftrightarrow> frettedStrings frets = {}"
    using sidx fn by auto
  show ?thesis
    unfolding detectBarre_def Let_def minf bstr
    by (simp add: empty lbs Math_min_def Math_max_def sbs not_less)
qed

lemma detectBarre_F_shape:
  "detectBarre [Fret 1, Fret 3, Fret 3, Fret 2, Fret 1, Fret 1]
     = Some \<lparr>b_fret = 1, b_fromString = 0, b_toString = 5, b_finger = 1\<rparr>"
  by code_simp

text \<open>
  Claim C7. For every fret array, \<open>detectBarre\<close> looks at the fretted strings (entry a
  number above 0) and at the lowest fret among them. When at least two strings hold that
  lowest fret, the result is a barre at that fret, from the lowest to the highest index of
  those strings, with finger 1. With fewer than two such strings, or with no fretted
  string at all, there is no barre. The frets \<open>[1,3,3,2,1,1]\<close> give a barre at fret 1 from
  string 0 to string 5.
\<close>

theorem C7_detectBarre:
  "detectBarre frets =
     (if frettedStrings frets \<noteq> {} \<and> card (lowestFretStrings frets) \<ge> 2
      then Some \<lparr>b_fret = lowestFret frets,
                 b_fromString = Min (lowestFretStrings frets),
                 b_toString = Max (lowestFretStrings frets),
                 b_finger = 1\<rparr>
      else None)
   \<and> detectBarre [Fret 1, Fret 3, Fret 3, Fret 2, Fret 1, Fret 1]
        = Some \<lparr>b_fret = 1, b_fromString = 0, b_toString = 5, b_finger = 1\<rparr>"
  using detectBarre_lowest detectBarre_F_shape by blast

section \<open>The recursive enumeration\<close>

lemma stringsOf_length [simp]: "length (stringsOf sel) = length sel"
  by (simp add: stringsOf_def)

lemma stringsOf_Muted: "i < length sel \<Longrightarrow> (stringsOf sel ! i = Muted) = (sel ! i = None)"
  by (simp add: stringsOf_def split: option.splits)

lemma zip_mute_rule:
  "(\<forall>(choice, required) \<in> set (zip sel hr). choice = None \<longrightarrow> \<not> required)
     = (\<forall>i. i < length sel \<and> i < length hr \<longrightarrow> sel ! i = None \<longrightarrow> \<not> hr ! i)"
proof
  assume l: "\<forall>(choice, required) \<in> set (zip sel hr). choice = None \<longrightarrow> \<not> required"
  show "\<forall>i. i < length sel \<and> i < length hr \<longrightarrow> sel ! i = None \<longrightarrow> \<not> hr ! i"
  proof (intro allI impI)
    fix i assume i: "i < length sel \<and> i < length hr" and n: "sel ! i = None"
    then have "(sel ! i, hr ! i) \<in> set (zip sel hr)"
      by (metis length_zip min_less_iff_conj nth_mem nth_zip)
    with l n show "\<not> hr ! i" by auto
  qed
next
  assume r: "\<forall>i. i < length sel \<and> i < length hr \<longrightarrow> sel ! i = None \<longrightarrow> \<not> hr ! i"
  show "\<forall>(choice, required) \<in> set (zip sel hr). choice = None \<longrightarrow> \<not> required"
  proof (clarify)
    fix required assume "(None, required) \<in> set (zip sel hr)" and req: required
    then obtain i where "i < length sel" "i < length hr" "sel ! i = None" "hr ! i = required"
      by (metis in_set_zip fst_conv snd_conv)
    with r req show False by auto
  qed
qed

lemma recordCandidate_eq:
  "recordCandidate env st =
     (if accepts env (selection st) \<and> patternOf (stringsOf (selection st)) \<notin> seenPatterns st
      then st\<lparr>seenPatterns := insert (patternOf (stringsOf (selection st))) (seenPatterns st),
              voicings := voicings st @ [voicingOf env (selection st)]\<rparr>
      else st)"
proof -
  have muted: "(\<exists>stringIndex < length (stringsOf (selection st)).
                  stringsOf (selection st) ! stringIndex = Muted
                  \<and> stringIndex < length (env_hasRequiredToneOnString env)
                  \<and> env_hasRequiredToneOnString env ! stringIndex)
             = (\<not> (\<forall>(choice, required) \<in> set (zip (selection st) (env_hasRequiredToneOnString env)).
                  choice = None \<longrightarrow> \<not> required))"
    unfolding zip_mute_rule using stringsOf_Muted [of _ "selection st"] by auto
  show ?thesis
    unfolding recordCandidate_def accepts_def Let_def
    unfolding stringsOf_def [symmetric] patternOf_def [symmetric] muted
    by (auto simp: voicingOf_def not_less not_le)
qed

lemma recordCandidate_selection [simp]: "selection (recordCandidate env st) = selection st"
  by (simp add: recordCandidate_eq)

lemma recordCandidate_seen_mono: "seenPatterns st \<subseteq> seenPatterns (recordCandidate env st)"
  by (auto simp: recordCandidate_eq)

lemma walk_6: "walk env 6 a st = recordCandidate env st"
  by (simp add: walk.simps)

lemma walk_step:
  "k < 6 \<Longrightarrow>
   walk env k a st =
     (if maxStrings < a \<or> a + (6 - k) < minStrings then st
      else fold (walkEach env k a) (env_candidatesPerString env ! k)
             (walk env (Suc k) a (st\<lparr>selection := (selection st)[k := None]\<rparr>)))"
  by (subst walk.simps) (simp add: Let_def walkEach_def [abs_def])

lemma take_Suc_eq_take:
  assumes "take (Suc k) xs = take (Suc k) ys"
  shows "take k xs = take k ys"
proof -
  have "take k (take (Suc k) xs) = take k (take (Suc k) ys)"
    using assms by simp
  then show ?thesis by (simp add: min_def)
qed

lemma walk_frame:
  "k \<le> 6 \<Longrightarrow>
   length (selection (walk env k a st)) = length (selection st)
   \<and> take k (selection (walk env k a st)) = take k (selection st)"
proof (induction "6 - k" arbitrary: k a st)
  case 0
  then have "k = 6" by simp
  then show ?case by (simp add: walk_6)
next
  case (Suc n)
  then have k: "k < 6" and n: "n = 6 - Suc k" and k1: "Suc k \<le> 6" by simp_all
  have IH: "length (selection (walk env (Suc k) b s)) = length (selection s)
          \<and> take k (selection (walk env (Suc k) b s)) = take k (selection s)" for b s
    using Suc.hyps(1) [OF n k1, of b s] take_Suc_eq_take by blast
  let ?Q = "\<lambda>s :: SearchState.
              length (selection s) = length (selection st) \<and> take k (selection s) = take k (selection st)"
  show ?case
  proof (cases "maxStrings < a \<or> a + (6 - k) < minStrings")
    case True
    then show ?thesis using k by (simp add: walk_step)
  next
    case False
    have "?Q (fold (walkEach env k a) (env_candidatesPerString env ! k)
               (walk env (Suc k) a (st\<lparr>selection := (selection st)[k := None]\<rparr>)))"
    proof (rule fold_invariant [where Q = "\<lambda>_. True"])
      show "?Q (walk env (Suc k) a (st\<lparr>selection := (selection st)[k := None]\<rparr>))"
        using IH [of a "st\<lparr>selection := (selection st)[k := None]\<rparr>"] by simp
    next
      fix c :: CandidateFret and s :: SearchState
      assume "?Q s"
      then show "?Q (walkEach env k a c s)"
        using IH [of "Suc a" "s\<lparr>selection := (selection s)[k := Some c]\<rparr>"]
        by (simp add: walkEach_def Let_def)
    qed simp
    then show ?thesis using k False by (simp add: walk_step)
  qed
qed

lemma walk_length: "k \<le> 6 \<Longrightarrow> length (selection (walk env k a st)) = length (selection st)"
  by (simp add: walk_frame)

lemma walk_prefix:
  assumes "k \<le> 6" and "i < k"
  shows "selection (walk env k a st) ! i = selection st ! i"
proof -
  have "take k (selection (walk env k a st)) ! i = take k (selection st) ! i"
    using walk_frame [OF assms(1)] by simp
  then show ?thesis using assms(2) by simp
qed

lemma walkEach_length:
  "k < 6 \<Longrightarrow> length (selection (walkEach env k a c s)) = length (selection s)"
  by (simp add: walkEach_def Let_def walk_length)

lemma walkEach_prefix:
  "k < 6 \<Longrightarrow> i < k \<Longrightarrow> selection (walkEach env k a c s) ! i = selection s ! i"
  by (simp add: walkEach_def Let_def walk_prefix)

lemma walkEach_seen:
  "seenPatterns (walkEach env k a c s)
     = seenPatterns (walk env (Suc k) (Suc a) (s\<lparr>selection := (selection s)[k := Some c]\<rparr>))"
  by (simp add: walkEach_def Let_def)

lemma walk_seen_mono:
  "k \<le> 6 \<Longrightarrow> seenPatterns st \<subseteq> seenPatterns (walk env k a st)"
proof (induction "6 - k" arbitrary: k a st)
  case 0
  then have "k = 6" by simp
  then show ?case by (simp add: walk_6 recordCandidate_seen_mono)
next
  case (Suc n)
  then have k: "k < 6" and n: "n = 6 - Suc k" and k1: "Suc k \<le> 6" by simp_all
  have IH: "seenPatterns s \<subseteq> seenPatterns (walk env (Suc k) b s)" for b s
    using Suc.hyps(1) [OF n k1] .
  let ?Q = "\<lambda>s :: SearchState. seenPatterns st \<subseteq> seenPatterns s"
  show ?case
  proof (cases "maxStrings < a \<or> a + (6 - k) < minStrings")
    case True
    then show ?thesis using k by (simp add: walk_step)
  next
    case False
    have "?Q (fold (walkEach env k a) (env_candidatesPerString env ! k)
               (walk env (Suc k) a (st\<lparr>selection := (selection st)[k := None]\<rparr>)))"
    proof (rule fold_invariant [where Q = "\<lambda>_. True"])
      show "?Q (walk env (Suc k) a (st\<lparr>selection := (selection st)[k := None]\<rparr>))"
        using IH [of "st\<lparr>selection := (selection st)[k := None]\<rparr>" a] by simp
    next
      fix c :: CandidateFret and s :: SearchState
      assume "?Q s"
      then show "?Q (walkEach env k a c s)"
        using IH [of "s\<lparr>selection := (selection s)[k := Some c]\<rparr>" "Suc a"]
        by (auto simp: walkEach_seen)
    qed simp
    then show ?thesis using k False by (simp add: walk_step)
  qed
qed

lemma walkEach_seen_mono: "k < 6 \<Longrightarrow> seenPatterns s \<subseteq> seenPatterns (walkEach env k a c s)"
  using walk_seen_mono [of "Suc k" "s\<lparr>selection := (selection s)[k := Some c]\<rparr>" env "Suc a"]
  by (simp add: walkEach_seen)

subsection \<open>Every recorded voicing comes from an accepted selection\<close>

lemma recorded_selection_update [simp]: "recorded env (s\<lparr>selection := x\<rparr>) = recorded env s"
  by (simp add: recorded_def)

lemma voicingOf_simps [simp]:
  "v_frets (voicingOf env sel) = stringsOf sel"
  "v_stringPitches (voicingOf env sel) = map (map_option cf_pitchClass) sel"
  "v_windowStart (voicingOf env sel) = env_windowStart env"
  "v_windowEnd (voicingOf env sel) = env_windowEnd env"
  by (simp_all add: voicingOf_def)

lemma recorded_recordCandidate:
  assumes "validSelection env (selection st)" and "recorded env st"
  shows "recorded env (recordCandidate env st)"
  using assms by (auto simp: recordCandidate_eq recorded_def)

lemma walk_recorded:
  "k \<le> 6 \<Longrightarrow> length (selection st) = 6 \<Longrightarrow>
   (\<forall>i < k. validChoice env i (selection st ! i)) \<Longrightarrow> recorded env st \<Longrightarrow>
   recorded env (walk env k a st)"
proof (induction "6 - k" arbitrary: k a st)
  case 0
  then have "k = 6" by simp
  with 0 show ?case
    by (simp add: walk_6 recorded_recordCandidate validSelection_def)
next
  case (Suc n)
  then have k: "k < 6" and n: "n = 6 - Suc k" and k1: "Suc k \<le> 6" by simp_all
  have IH: "length (selection s) = 6 \<Longrightarrow> (\<forall>i < Suc k. validChoice env i (selection s ! i)) \<Longrightarrow>
            recorded env s \<Longrightarrow> recorded env (walk env (Suc k) b s)" for b s
    using Suc.hyps(1) [OF n k1] by blast
  let ?Q = "\<lambda>s :: SearchState. length (selection s) = 6
              \<and> (\<forall>i < k. validChoice env i (selection s ! i)) \<and> recorded env s"
  show ?case
  proof (cases "maxStrings < a \<or> a + (6 - k) < minStrings")
    case True
    then show ?thesis using k Suc.prems by (simp add: walk_step)
  next
    case False
    have "?Q (fold (walkEach env k a) (env_candidatesPerString env ! k)
               (walk env (Suc k) a (st\<lparr>selection := (selection st)[k := None]\<rparr>)))"
    proof (rule fold_invariant [where Q = "\<lambda>c. c \<in> set (env_candidatesPerString env ! k)"])
      let ?s0 = "st\<lparr>selection := (selection st)[k := None]\<rparr>"
      have v: "\<forall>i < Suc k. validChoice env i (selection ?s0 ! i)"
        using Suc.prems k by (auto simp: less_Suc_eq validChoice_def)
      have "recorded env (walk env (Suc k) a ?s0)"
        using IH [of ?s0 a] v Suc.prems by simp
      moreover have "\<forall>i < k. validChoice env i (selection (walk env (Suc k) a ?s0) ! i)"
        using Suc.prems k k1 by (simp add: walk_prefix)
      ultimately show "?Q (walk env (Suc k) a ?s0)"
        using Suc.prems k1 by (simp add: walk_length)
    next
      fix c :: CandidateFret and s :: SearchState
      assume c: "c \<in> set (env_candidatesPerString env ! k)" and q: "?Q s"
      let ?s0 = "s\<lparr>selection := (selection s)[k := Some c]\<rparr>"
      have v: "\<forall>i < Suc k. validChoice env i (selection ?s0 ! i)"
        using q c k by (auto simp: less_Suc_eq validChoice_def)
      have "recorded env (walk env (Suc k) (Suc a) ?s0)"
        using IH [of ?s0 "Suc a"] v q by simp
      then have "recorded env (walkEach env k a c s)"
        by (simp add: walkEach_def Let_def)
      then show "?Q (walkEach env k a c s)"
        using q k by (simp add: walkEach_length walkEach_prefix)
    qed simp
    then show ?thesis using k False by (simp add: walk_step)
  qed
qed

subsection \<open>Every accepted selection is recorded\<close>

lemma activeChoices_append: "activeChoices (xs @ ys) = activeChoices xs @ activeChoices ys"
  by (induction xs rule: activeChoices.induct) simp_all

lemma activeChoices_length_le: "length (activeChoices xs) \<le> length xs"
  by (induction xs rule: activeChoices.induct) simp_all

lemma activeChoices_take_drop:
  "length (activeChoices sel) \<le> length (activeChoices (take k sel)) + (length sel - k)"
proof -
  have "activeChoices sel = activeChoices (take k sel) @ activeChoices (drop k sel)"
    by (metis activeChoices_append append_take_drop_id)
  then have "length (activeChoices sel)
               = length (activeChoices (take k sel)) + length (activeChoices (drop k sel))"
    by simp
  moreover have "length (activeChoices (drop k sel)) \<le> length sel - k"
    using activeChoices_length_le [of "drop k sel"] by simp
  ultimately show ?thesis by simp
qed

lemma fold_reaches:
  assumes "x \<in> set xs" and "F s0"
    and "\<And>y s. F s \<Longrightarrow> F (f y s)"
    and "\<And>s. F s \<Longrightarrow> G (f x s)"
    and "\<And>y s. G s \<Longrightarrow> G (f y s)"
  shows "G (fold f xs s0)"
proof -
  have "(F s \<longrightarrow> x \<in> set ys \<longrightarrow> G (fold f ys s)) \<and> (G s \<longrightarrow> G (fold f ys s))" for ys s
  proof (induction ys arbitrary: s)
    case Nil
    then show ?case by simp
  next
    case (Cons y ys)
    show ?case
      using Cons [of "f y s"] assms(3) [of s y] assms(4) [of s] assms(5) [of s y] by auto
  qed
  then show ?thesis using assms(1,2) by blast
qed

lemma walk_complete:
  "k \<le> 6 \<Longrightarrow> length sel = 6 \<Longrightarrow> length (selection st) = 6 \<Longrightarrow>
   take k (selection st) = take k sel \<Longrightarrow>
   (\<forall>i. k \<le> i \<and> i < 6 \<longrightarrow> validChoice env i (sel ! i)) \<Longrightarrow>
   accepts env sel \<Longrightarrow> a = length (activeChoices (take k sel)) \<Longrightarrow>
   patternOf (stringsOf sel) \<in> seenPatterns (walk env k a st)"
proof (induction "6 - k" arbitrary: k a st)
  case 0
  then have "k = 6" by simp
  with 0 have "selection st = sel" by simp
  with \<open>k = 6\<close> 0 show ?case
    by (simp add: walk_6 recordCandidate_eq)
next
  case (Suc n)
  then have k: "k < 6" and n: "n = 6 - Suc k" and k1: "Suc k \<le> 6" by simp_all
  have IH: "length (selection s) = 6 \<Longrightarrow> take (Suc k) (selection s) = take (Suc k) sel \<Longrightarrow>
            b = length (activeChoices (take (Suc k) sel)) \<Longrightarrow>
            patternOf (stringsOf sel) \<in> seenPatterns (walk env (Suc k) b s)" for b s
    using Suc.hyps(1) [OF n k1, of s b] Suc.prems by simp
  have tk: "take (Suc k) sel = take k sel @ [sel ! k]"
    using k Suc.prems by (simp add: take_Suc_conv_app_nth)
  have upd: "length (selection s) = 6 \<Longrightarrow> take k (selection s) = take k sel \<Longrightarrow>
             take (Suc k) ((selection s)[k := sel ! k]) = take (Suc k) sel" for s :: SearchState
    using k by (simp add: take_Suc_conv_app_nth tk)
  have "minStrings \<le> length (activeChoices sel)"
    using Suc.prems by (simp add: accepts_def Let_def)
  moreover have "length (activeChoices sel) \<le> a + (6 - k)"
    using activeChoices_take_drop [of sel k] Suc.prems by simp
  moreover have "a \<le> maxStrings"
    using activeChoices_length_le [of "take k sel"] Suc.prems by (simp add: maxStrings_def)
  ultimately have noprune: "\<not> (maxStrings < a \<or> a + (6 - k) < minStrings)"
    by simp
  let ?s0 = "st\<lparr>selection := (selection st)[k := None]\<rparr>"
  let ?G = "\<lambda>s :: SearchState. patternOf (stringsOf sel) \<in> seenPatterns s"
  let ?F = "\<lambda>s :: SearchState. length (selection s) = 6 \<and> take k (selection s) = take k sel"
  have F0: "?F (walk env (Suc k) a ?s0)"
    using Suc.prems k1 walk_frame [of "Suc k" env a ?s0] take_Suc_eq_take [of k "selection (walk env (Suc k) a ?s0)" "selection ?s0"]
    by simp
  have Fstep: "?F s \<Longrightarrow> ?F (walkEach env k a c s)" for c s
  proof -
    assume f: "?F s"
    have "take k (selection (walkEach env k a c s)) = take k (selection s)"
      using k f by (intro nth_take_lemma) (simp_all add: walkEach_length walkEach_prefix)
    then show ?thesis using f k by (simp add: walkEach_length)
  qed
  have Gstep: "?G s \<Longrightarrow> ?G (walkEach env k a c s)" for c s
    using walkEach_seen_mono [OF k, of s env a c] by blast
  have "?G (fold (walkEach env k a) (env_candidatesPerString env ! k) (walk env (Suc k) a ?s0))"
  proof (cases "sel ! k")
    case None
    have "take (Suc k) (selection ?s0) = take (Suc k) sel"
      using upd [of st] Suc.prems None by simp
    moreover have "a = length (activeChoices (take (Suc k) sel))"
      using Suc.prems None by (simp add: tk activeChoices_append)
    ultimately have "?G (walk env (Suc k) a ?s0)"
      using IH [of ?s0 a] Suc.prems by simp
    then show ?thesis
      by (rule fold_invariant [where Q = "\<lambda>_. True" and P = ?G, rotated]) (simp_all add: Gstep)
  next
    case (Some c)
    have cin: "c \<in> set (env_candidatesPerString env ! k)"
      using Suc.prems(5) k Some by (auto simp: validChoice_def)
    have reach: "?F s \<Longrightarrow> ?G (walkEach env k a c s)" for s
    proof -
      assume f: "?F s"
      let ?s1 = "s\<lparr>selection := (selection s)[k := Some c]\<rparr>"
      have "take (Suc k) (selection ?s1) = take (Suc k) sel"
        using upd [of s] f Some by simp
      moreover have "Suc a = length (activeChoices (take (Suc k) sel))"
        using Suc.prems Some by (simp add: tk activeChoices_append)
      ultimately have "?G (walk env (Suc k) (Suc a) ?s1)"
        using IH [of ?s1 "Suc a"] f by simp
      then show ?thesis by (simp add: walkEach_seen)
    qed
    show ?thesis
    proof (rule fold_reaches [where F = ?F and G = ?G and x = c and f = "walkEach env k a"])
      show "c \<in> set (env_candidatesPerString env ! k)" by (rule cin)
      show "?F (walk env (Suc k) a ?s0)" by (rule F0)
      show "?F s \<Longrightarrow> ?F (walkEach env k a y s)" for y s by (rule Fstep)
      show "?F s \<Longrightarrow> ?G (walkEach env k a c s)" for s by (rule reach)
      show "?G s \<Longrightarrow> ?G (walkEach env k a y s)" for y s by (rule Gstep)
    qed
  qed
  then show ?case using k noprune by (simp add: walk_step)
qed

subsection \<open>The enumerated voicings\<close>

lemma recorded_initial: "recorded env initialState"
  by (simp add: recorded_def initialState_def)

lemma recorded_enumerated:
  "recorded (searchEnv chordTones rootPc startFret)
     (walk (searchEnv chordTones rootPc startFret) 0 0 initialState)"
  by (rule walk_recorded) (simp_all add: recorded_initial, simp add: initialState_def)

lemma enumerated_from_selection:
  assumes "v \<in> set (enumeratedVoicings chordTones rootPc startFret)"
  shows "\<exists>sel. validSelection (searchEnv chordTones rootPc startFret) sel
             \<and> accepts (searchEnv chordTones rootPc startFret) sel
             \<and> v = voicingOf (searchEnv chordTones rootPc startFret) sel"
  using assms recorded_enumerated [of chordTones rootPc startFret]
  by (simp add: enumeratedVoicings_def recorded_def)

lemma enumerated_distinct_patterns:
  "distinct (map (\<lambda>v. patternOf (v_frets v)) (enumeratedVoicings chordTones rootPc startFret))"
  using recorded_enumerated [of chordTones rootPc startFret]
  by (simp add: enumeratedVoicings_def recorded_def)

lemma enumerated_distinct_frets:
  "distinct (map v_frets (enumeratedVoicings chordTones rootPc startFret))"
proof -
  have "distinct (map patternOf (map v_frets (enumeratedVoicings chordTones rootPc startFret)))"
    using enumerated_distinct_patterns [of chordTones rootPc startFret] by (simp add: o_def)
  then show ?thesis by (rule distinct_map [THEN iffD1, THEN conjunct1])
qed

lemma enumerated_has_pattern:
  assumes "validSelection (searchEnv chordTones rootPc startFret) sel"
    and "accepts (searchEnv chordTones rootPc startFret) sel"
  shows "\<exists>v \<in> set (enumeratedVoicings chordTones rootPc startFret).
           patternOf (v_frets v) = patternOf (stringsOf sel)"
proof -
  let ?env = "searchEnv chordTones rootPc startFret"
  have "patternOf (stringsOf sel) \<in> seenPatterns (walk ?env 0 0 initialState)"
    using assms by (intro walk_complete) (simp_all add: validSelection_def initialState_def)
  then show ?thesis
    using recorded_enumerated [of chordTones rootPc startFret]
    by (auto simp: enumeratedVoicings_def recorded_def)
qed

section \<open>The search environment\<close>

lemma smod_nonneg_12: "0 \<le> a \<Longrightarrow> a smod 12 = a mod (12::int)"
  by (simp add: smod_int_alt_def sgn_if)

lemma normalizePitch_mod: "normalizePitch v = v mod 12"
proof (cases "0 \<le> v")
  case True
  then have "v smod 12 = v mod 12"
    by (rule smod_nonneg_12)
  moreover have "(v mod 12 + 12) smod 12 = (v mod 12 + 12) mod 12"
    by (rule smod_nonneg_12) simp
  ultimately show ?thesis
    by (simp add: normalizePitch_def)
next
  case False
  define m where "m = (- v) mod 12"
  have m: "0 \<le> m" "m < 12"
    by (simp_all add: m_def)
  have "v smod 12 = - m"
    using False by (simp add: smod_int_alt_def sgn_if m_def)
  moreover have "(- m + 12) smod 12 = (- m + 12) mod 12"
    by (rule smod_nonneg_12) (use m in simp)
  moreover have "(- m + 12) mod 12 = (- m) mod 12"
    by simp
  moreover have "(- m) mod 12 = v mod 12"
    unfolding m_def by (simp add: mod_minus_eq)
  ultimately show ?thesis
    by (simp add: normalizePitch_def)
qed

lemma searchEnv_simps [simp]:
  "env_root (searchEnv chordTones rootPc startFret) = rootPc"
  "env_windowStart (searchEnv chordTones rootPc startFret) = windowStartOf startFret"
  "env_windowEnd (searchEnv chordTones rootPc startFret) = windowEndOf startFret"
  "env_requiredIntervals (searchEnv chordTones rootPc startFret)
     = set (getRequiredIntervals (chordIntervals chordTones rootPc))"
  "length (env_candidatesPerString (searchEnv chordTones rootPc startFret)) = 6"
  "length (env_hasRequiredToneOnString (searchEnv chordTones rootPc startFret)) = 6"
  by (simp_all add: searchEnv_def Let_def windowStartOf_def windowEndOf_def
        WINDOW_FRET_SPAN_def TOTAL_FRETS_def STANDARD_TUNING_def)

lemma searchEnv_candidates:
  assumes "i < 6"
  shows "set (env_candidatesPerString (searchEnv chordTones rootPc startFret) ! i)
       = {c. windowStartOf startFret \<le> cf_fret c \<and> cf_fret c \<le> windowEndOf startFret
             \<and> cf_pitchClass c = (STANDARD_TUNING ! i + cf_fret c) mod 12
             \<and> cf_pitchClass c \<in> set chordTones}"
proof -
  have len: "i < length STANDARD_TUNING"
    using assms by (simp add: STANDARD_TUNING_def)
  have "env_candidatesPerString (searchEnv chordTones rootPc startFret) ! i
      = [\<lparr>cf_fret = fret, cf_pitchClass = normalizePitch (STANDARD_TUNING ! i + fret)\<rparr>.
           fret \<leftarrow> [windowStartOf startFret..windowEndOf startFret],
           normalizePitch (STANDARD_TUNING ! i + fret) \<in> set chordTones]"
    using len
    by (simp add: searchEnv_def Let_def windowStartOf_def windowEndOf_def
          WINDOW_FRET_SPAN_def TOTAL_FRETS_def)
  then show ?thesis
    by (auto simp: normalizePitch_mod)
qed

lemma searchEnv_hasRequired:
  assumes "i < 6"
  shows "env_hasRequiredToneOnString (searchEnv chordTones rootPc startFret) ! i
       = (\<exists>f \<in> {windowStartOf startFret..windowEndOf startFret}.
            (STANDARD_TUNING ! i + f - rootPc) mod 12
              \<in> set (getRequiredIntervals (chordIntervals chordTones rootPc)))"
proof -
  have len: "i < length STANDARD_TUNING"
    using assms by (simp add: STANDARD_TUNING_def)
  show ?thesis
    using len
    by (simp add: searchEnv_def Let_def windowStartOf_def windowEndOf_def
          WINDOW_FRET_SPAN_def TOTAL_FRETS_def list_ex_iff normalizePitch_mod)
qed

lemma chordIntervals_set: "set (chordIntervals chordTones rootPc) = intervalSet chordTones rootPc"
  by (simp add: chordIntervals_def intervalSet_def normalizePitch_mod)

lemma chordIntervals_sorted: "sorted (chordIntervals chordTones rootPc)"
  by (simp add: chordIntervals_def)

lemma find_third_sorted:
  "sorted xs \<Longrightarrow>
   find (\<lambda>interval. interval = 3 \<or> interval = 4) xs
     = (if (3::int) \<in> set xs then Some 3 else if 4 \<in> set xs then Some 4 else None)"
proof (induction xs)
  case Nil
  then show ?case by simp
next
  case (Cons x xs)
  then have "\<forall>y \<in> set xs. x \<le> y" by simp
  then have "x = 4 \<Longrightarrow> 3 \<notin> set xs" by fastforce
  with Cons show ?case by auto
qed

lemma getRequiredIntervals_set:
  "set (getRequiredIntervals (chordIntervals chordTones rootPc))
     = RequiredIntervals chordTones rootPc"
proof -
  have "set (getFifthIntervals (chordIntervals chordTones rootPc))
          = intervalSet chordTones rootPc \<inter> {6, 7, 8}"
    by (auto simp: getFifthIntervals_def chordIntervals_set)
  then show ?thesis
    unfolding getRequiredIntervals_def RequiredIntervals_def Let_def
    by (simp add: find_third_sorted [OF chordIntervals_sorted] chordIntervals_set)
qed

section \<open>What an accepted selection looks like\<close>

lemma activeChoices_set: "set (activeChoices sel) = Option.these (set sel)"
  by (induction sel rule: activeChoices.induct) simp_all

lemma fretNumbers_stringsOf: "fretNumbers (stringsOf sel) = map cf_fret (activeChoices sel)"
  by (induction sel rule: activeChoices.induct) (simp_all add: stringsOf_def)

lemma soundedPitches_voicingOf:
  "soundedPitches (voicingOf env sel) = cf_pitchClass ` set (activeChoices sel)"
proof -
  have "Option.these (set (map (map_option cf_pitchClass) sel)) = cf_pitchClass ` set (activeChoices sel)"
    by (induction sel rule: activeChoices.induct) simp_all
  then show ?thesis by (simp add: soundedPitches_def)
qed

lemma sounded_count_stringsOf:
  "length (filter (\<lambda>f. f \<noteq> Muted) (stringsOf sel)) = length (activeChoices sel)"
  by (induction sel rule: activeChoices.induct) (simp_all add: stringsOf_def)

lemma accepts_required:
  assumes "accepts (searchEnv chordTones rootPc startFret) sel"
  shows "RequiredIntervals chordTones rootPc
           \<subseteq> soundedIntervals (voicingOf (searchEnv chordTones rootPc startFret) sel) rootPc"
proof
  fix interval
  assume "interval \<in> RequiredIntervals chordTones rootPc"
  then have "interval \<in> set (map (\<lambda>choice. normalizePitch (cf_pitchClass choice - rootPc)) (activeChoices sel))"
    using assms unfolding accepts_def Let_def by (simp add: getRequiredIntervals_set)
  then obtain c where "c \<in> set (activeChoices sel)" and "interval = (cf_pitchClass c - rootPc) mod 12"
    by (auto simp: normalizePitch_mod)
  then show "interval \<in> soundedIntervals (voicingOf (searchEnv chordTones rootPc startFret) sel) rootPc"
    unfolding soundedIntervals_def soundedPitches_voicingOf by blast
qed

lemma accepts_span:
  assumes "accepts env sel"
  shows "Math_max (fretNumbers (stringsOf sel)) - Math_min (fretNumbers (stringsOf sel)) \<le> 3"
    and "3 \<le> length (fretNumbers (stringsOf sel))"
    and "length (fretNumbers (stringsOf sel)) \<le> 6"
  using assms
  by (simp_all add: accepts_def Let_def fretNumbers_stringsOf WINDOW_FRET_SPAN_def
        minStrings_def maxStrings_def)

lemma accepts_mute_rule:
  assumes "accepts (searchEnv chordTones rootPc startFret) sel" and "length sel = 6"
    and "i < 6" and "canSoundRequired chordTones rootPc startFret i"
  shows "sel ! i \<noteq> None"
proof -
  let ?env = "searchEnv chordTones rootPc startFret"
  have "\<forall>i. i < length sel \<and> i < length (env_hasRequiredToneOnString ?env) \<longrightarrow>
            sel ! i = None \<longrightarrow> \<not> env_hasRequiredToneOnString ?env ! i"
    using assms(1) unfolding accepts_def Let_def zip_mute_rule by blast
  moreover have "env_hasRequiredToneOnString ?env ! i"
    using assms(3,4) by (simp add: searchEnv_hasRequired canSoundRequired_def getRequiredIntervals_set)
  ultimately show ?thesis using assms(2,3) by auto
qed

lemma valid_choice_window:
  assumes "validSelection (searchEnv chordTones rootPc startFret) sel" and "i < 6"
    and "sel ! i = Some c"
  shows "windowStartOf startFret \<le> cf_fret c \<and> cf_fret c \<le> windowEndOf startFret
       \<and> cf_pitchClass c = (STANDARD_TUNING ! i + cf_fret c) mod 12
       \<and> cf_pitchClass c \<in> set chordTones"
proof -
  have "c \<in> set (env_candidatesPerString (searchEnv chordTones rootPc startFret) ! i)"
    using assms by (auto simp: validSelection_def validChoice_def split: option.splits)
  then show ?thesis
    using assms(2) by (auto simp: searchEnv_candidates)
qed

section \<open>Filtering and ranking\<close>

lemma insertByScore_set [simp]: "set (insertByScore a xs) = insert a (set xs)"
  by (induction xs) auto

lemma insertByScore_length [simp]: "length (insertByScore a xs) = Suc (length xs)"
  by (induction xs) auto

lemma insertByScore_distinct:
  "distinct (map g (insertByScore a xs)) = distinct (map g (a # xs))"
  by (induction xs) auto

lemma sortByScore_set [simp]: "set (sortByScore xs) = set xs"
  by (induction xs) (simp_all add: sortByScore_def)

lemma sortByScore_length [simp]: "length (sortByScore xs) = length xs"
  by (induction xs) (simp_all add: sortByScore_def)

lemma sortByScore_distinct: "distinct (map g (sortByScore xs)) = distinct (map g xs)"
proof (induction xs)
  case Nil
  then show ?case by (simp add: sortByScore_def)
next
  case (Cons a xs)
  have "sortByScore (a # xs) = insertByScore a (sortByScore xs)"
    by (simp add: sortByScore_def)
  then show ?case
    using Cons by (simp add: insertByScore_distinct image_iff)
qed

lemma number_le_refl: "number_le a a"
  by (cases a) (simp_all add: number_le_def)

lemma number_le_total: "number_le a b \<or> number_le b a"
  by (cases a; cases b) (auto simp: number_le_def)

lemma number_le_trans: "number_le a b \<Longrightarrow> number_le b c \<Longrightarrow> number_le a c"
  by (cases a; cases b; cases c) (auto simp: number_le_def)

lemma insertByScore_sorted:
  assumes "sorted_wrt (\<lambda>a b. number_le (sv_score a) (sv_score b)) xs"
  shows "sorted_wrt (\<lambda>a b. number_le (sv_score a) (sv_score b)) (insertByScore x xs)"
  using assms
proof (induction xs)
  case Nil
  then show ?case by simp
next
  case (Cons y ys)
  show ?case
  proof (cases "number_le (sv_score x) (sv_score y)")
    case True
    then have "\<forall>z \<in> set ys. number_le (sv_score x) (sv_score z)"
      using Cons.prems number_le_trans by auto
    with True Cons.prems show ?thesis by simp
  next
    case False
    then have "number_le (sv_score y) (sv_score x)"
      using number_le_total by blast
    with False Cons show ?thesis by auto
  qed
qed

lemma sortByScore_sorted:
  "sorted_wrt (\<lambda>a b. number_le (sv_score a) (sv_score b)) (sortByScore xs)"
proof (induction xs)
  case Nil
  then show ?case by (simp add: sortByScore_def)
next
  case (Cons a xs)
  have "sortByScore (a # xs) = insertByScore a (sortByScore xs)"
    by (simp add: sortByScore_def)
  then show ?case
    using Cons insertByScore_sorted by simp
qed

text \<open>The voicings that survive the fifth filter, before scoring.\<close>

lemma generate_voicings:
  "map sv_voicing (generateChordVoicings chordTones rootPc startFret) =
     map sv_voicing (sortByScore
       (map (\<lambda>voicing. \<lparr>sv_voicing = voicing, sv_score = getVoicingScore voicing rootPc 4\<rparr>)
          (if list_ex (\<lambda>voicing. hasFifth voicing rootPc (chordIntervals chordTones rootPc))
                (enumeratedVoicings chordTones rootPc startFret)
           then filter (\<lambda>voicing. hasFifth voicing rootPc (chordIntervals chordTones rootPc))
                  (enumeratedVoicings chordTones rootPc startFret)
           else enumeratedVoicings chordTones rootPc startFret)))"
  by (simp add: generateChordVoicings_def Let_def)

lemma generate_member:
  assumes "sv \<in> set (generateChordVoicings chordTones rootPc startFret)"
  shows "sv_voicing sv \<in> set (enumeratedVoicings chordTones rootPc startFret)"
    and "sv_score sv = getVoicingScore (sv_voicing sv) rootPc 4"
  using assms by (auto simp: generateChordVoicings_def Let_def split: if_splits)

lemma generate_from_selection:
  assumes "sv \<in> set (generateChordVoicings chordTones rootPc startFret)"
  shows "\<exists>sel. validSelection (searchEnv chordTones rootPc startFret) sel
             \<and> accepts (searchEnv chordTones rootPc startFret) sel
             \<and> sv_voicing sv = voicingOf (searchEnv chordTones rootPc startFret) sel"
  using generate_member(1) [OF assms] by (rule enumerated_from_selection)

lemma generate_distinct_frets:
  "distinct (map (\<lambda>sv. v_frets (sv_voicing sv)) (generateChordVoicings chordTones rootPc startFret))"
proof -
  let ?all = "enumeratedVoicings chordTones rootPc startFret"
  let ?score = "\<lambda>voicing. \<lparr>sv_voicing = voicing, sv_score = getVoicingScore voicing rootPc 4\<rparr>"
  have d: "distinct (map v_frets ?all)"
    by (rule enumerated_distinct_frets)
  have "distinct (map (\<lambda>sv. v_frets (sv_voicing sv)) (map ?score xs)) = distinct (map v_frets xs)" for xs
    by (simp add: o_def)
  moreover have "distinct (map v_frets (filter P ?all))" for P
    using d by (rule distinct_map_filter)
  ultimately show ?thesis
    using d by (simp add: generateChordVoicings_def Let_def sortByScore_distinct del: map_map)
qed

lemma generate_nonempty:
  assumes "enumeratedVoicings chordTones rootPc startFret \<noteq> []"
  shows "generateChordVoicings chordTones rootPc startFret \<noteq> []"
proof -
  let ?all = "enumeratedVoicings chordTones rootPc startFret"
  let ?P = "\<lambda>voicing. hasFifth voicing rootPc (chordIntervals chordTones rootPc)"
  have "list_ex ?P ?all \<Longrightarrow> filter ?P ?all \<noteq> []"
    by (auto simp: list_ex_iff filter_empty_conv)
  then have "(if list_ex ?P ?all then filter ?P ?all else ?all) \<noteq> []"
    using assms by simp
  then have "length (generateChordVoicings chordTones rootPc startFret) \<noteq> 0"
    unfolding generateChordVoicings_def Let_def by simp
  then show ?thesis by auto
qed

lemma search_nonempty:
  assumes "validSelection (searchEnv chordTones rootPc startFret) sel"
    and "accepts (searchEnv chordTones rootPc startFret) sel"
  shows "generateChordVoicings chordTones rootPc startFret \<noteq> []"
proof -
  have "enumeratedVoicings chordTones rootPc startFret \<noteq> []"
    using enumerated_has_pattern [OF assms] by auto
  then show ?thesis by (rule generate_nonempty)
qed

section \<open>The pattern string determines the fret pattern\<close>

lemma digitChar_code: "d < 10 \<Longrightarrow> (of_char (digitChar d) :: nat) = 48 + d"
  by (simp add: digitChar_def)

lemma digitChar_inj:
  assumes "a < 10" and "b < 10" and "digitChar a = digitChar b"
  shows "a = b"
proof -
  have "(of_char (digitChar a) :: nat) = of_char (digitChar b)"
    by (simp only: assms(3))
  then have "48 + a = 48 + b"
    by (simp only: digitChar_code [OF assms(1)] digitChar_code [OF assms(2)])
  then show ?thesis by simp
qed

lemma digitChar_plain: "d < 10 \<Longrightarrow> digitChar d \<noteq> CHR ''-'' \<and> digitChar d \<noteq> CHR ''x''"
proof (intro conjI notI)
  assume d: "d < 10" and "digitChar d = CHR ''-''"
  then have "(of_char (digitChar d) :: nat) = 45" by simp
  with digitChar_code [OF d] show False by simp
next
  assume d: "d < 10" and "digitChar d = CHR ''x''"
  then have "(of_char (digitChar d) :: nat) = 120" by simp
  with digitChar_code [OF d] d show False by simp
qed

lemma natToString_nonempty: "natToString n \<noteq> []"
  by (subst natToString.simps) simp

lemma natToString_plain: "c \<in> set (natToString n) \<Longrightarrow> c \<noteq> CHR ''-'' \<and> c \<noteq> CHR ''x''"
proof (induction n rule: natToString.induct)
  case (1 n)
  show ?case
  proof (cases "n < 10")
    case True
    then have "natToString n = [digitChar n]"
      by (subst natToString.simps) simp
    with 1 True show ?thesis
      using digitChar_plain [of n] by simp
  next
    case False
    then have "natToString n = natToString (n div 10) @ [digitChar (n mod 10)]"
      by (subst natToString.simps) simp
    with 1 False show ?thesis
      using digitChar_plain [of "n mod 10"] by auto
  qed
qed

lemma natToString_inj: "natToString a = natToString b \<Longrightarrow> a = b"
proof (induction a arbitrary: b rule: natToString.induct)
  case (1 a)
  have ea: "natToString a =
              (if a < 10 then [digitChar a] else natToString (a div 10) @ [digitChar (a mod 10)])"
    by (subst natToString.simps) simp
  have eb: "natToString b =
              (if b < 10 then [digitChar b] else natToString (b div 10) @ [digitChar (b mod 10)])"
    by (subst natToString.simps) simp
  show ?case
  proof (cases "a < 10")
    case True
    show ?thesis
    proof (cases "b < 10")
      case b: True
      with True 1(2) ea eb show ?thesis
        using digitChar_inj by simp
    next
      case b: False
      with True 1(2) ea eb show ?thesis
        using natToString_nonempty [of "b div 10"] by simp
    qed
  next
    case False
    show ?thesis
    proof (cases "b < 10")
      case b: True
      with False 1(2) ea eb show ?thesis
        using natToString_nonempty [of "a div 10"] by simp
    next
      case b: False
      with False 1(2) ea eb
      have "natToString (a div 10) = natToString (b div 10)"
        and d: "digitChar (a mod 10) = digitChar (b mod 10)"
        by simp_all
      then have "a div 10 = b div 10"
        using 1(1) [OF False] by simp
      moreover have "a mod 10 = b mod 10"
        using d by (intro digitChar_inj) simp_all
      ultimately show ?thesis
        by (metis div_mult_mod_eq)
    qed
  qed
qed

text \<open>A fret entry of the search: muted, or a fret number that is not negative.\<close>

lemma fretToString_plain:
  assumes "f = Muted \<or> (\<exists>n \<ge> 0. f = Fret n)"
  shows "CHR ''-'' \<notin> set (fretToString f)"
proof -
  have "CHR ''-'' \<notin> set (natToString n)" for n
    using natToString_plain [of "CHR ''-''" n] by blast
  then show ?thesis
    using assms by (auto simp: numberToString_def)
qed

lemma fretToString_inj:
  assumes "f = Muted \<or> (\<exists>n \<ge> 0. f = Fret n)" and "g = Muted \<or> (\<exists>n \<ge> 0. g = Fret n)"
    and "fretToString f = fretToString g"
  shows "f = g"
proof -
  have x: "natToString n \<noteq> ''x''" for n
    using natToString_plain [of "CHR ''x''" n] by auto
  have inj: "natToString (nat n) = natToString (nat m) \<Longrightarrow> 0 \<le> n \<Longrightarrow> 0 \<le> m \<Longrightarrow> n = m"
    for n m :: int
    using natToString_inj [of "nat n" "nat m"] by simp
  from assms(1) show ?thesis
  proof
    assume f: "f = Muted"
    from assms(2) show ?thesis
    proof
      assume "g = Muted"
      with f show ?thesis by simp
    next
      assume "\<exists>n \<ge> 0. g = Fret n"
      then obtain m where "0 \<le> m" "g = Fret m" by blast
      with f assms(3) x [of "nat m"] show ?thesis
        by (simp add: numberToString_def)
    qed
  next
    assume "\<exists>n \<ge> 0. f = Fret n"
    then obtain n where n: "0 \<le> n" "f = Fret n" by blast
    from assms(2) show ?thesis
    proof
      assume "g = Muted"
      with n assms(3) x [of "nat n"] show ?thesis
        by (simp add: numberToString_def)
    next
      assume "\<exists>n \<ge> 0. g = Fret n"
      then obtain m where m: "0 \<le> m" "g = Fret m" by blast
      with n assms(3) have "natToString (nat n) = natToString (nat m)"
        by (simp add: numberToString_def)
      then have "n = m" using n m by (intro inj)
      with n m show ?thesis by simp
    qed
  qed
qed

lemma split_at_dash:
  assumes "CHR ''-'' \<notin> set s" and "CHR ''-'' \<notin> set t" and "s @ CHR ''-'' # u = t @ CHR ''-'' # w"
  shows "s = t \<and> u = w"
proof -
  have "takeWhile (\<lambda>c. c \<noteq> CHR ''-'') (s @ CHR ''-'' # u) = s"
    using assms(1) by (auto simp: takeWhile_tail)
  moreover have "takeWhile (\<lambda>c. c \<noteq> CHR ''-'') (t @ CHR ''-'' # w) = t"
    using assms(2) by (auto simp: takeWhile_tail)
  ultimately have "s = t" using assms(3) by simp
  with assms(3) show ?thesis by simp
qed

lemma joinWith_plain_inj:
  assumes "length xs = length ys"
    and "\<forall>s \<in> set xs. CHR ''-'' \<notin> set s" and "\<forall>s \<in> set ys. CHR ''-'' \<notin> set s"
    and "joinWith ''-'' xs = joinWith ''-'' ys"
  shows "xs = ys"
  using assms
proof (induction xs ys rule: list_induct2)
  case Nil
  then show ?case by simp
next
  case (Cons x xs y ys)
  show ?case
  proof (cases xs)
    case Nil
    with Cons show ?thesis by simp
  next
    case xs: (Cons x' xs')
    then obtain y' ys' where ys: "ys = y' # ys'"
      using Cons.hyps by (cases ys) simp_all
    have "x @ CHR ''-'' # joinWith ''-'' xs = y @ CHR ''-'' # joinWith ''-'' ys"
      using Cons.prems(3) xs ys by simp
    then have "x = y \<and> joinWith ''-'' xs = joinWith ''-'' ys"
      using Cons.prems by (intro split_at_dash) simp_all
    with Cons show ?thesis by simp
  qed
qed

lemma map_fretToString_inj:
  assumes "length fs = length gs"
    and "map fretToString fs = map fretToString gs"
    and "\<forall>f \<in> set fs. f = Muted \<or> (\<exists>n \<ge> 0. f = Fret n)"
    and "\<forall>g \<in> set gs. g = Muted \<or> (\<exists>n \<ge> 0. g = Fret n)"
  shows "fs = gs"
  using assms
proof (induction fs gs rule: list_induct2)
  case Nil
  then show ?case by simp
next
  case (Cons f fs g gs)
  then have "f = g" by (intro fretToString_inj) simp_all
  with Cons show ?case by simp
qed

lemma patternOf_inj:
  assumes "length fs = length gs"
    and "\<forall>f \<in> set fs. f = Muted \<or> (\<exists>n \<ge> 0. f = Fret n)"
    and "\<forall>g \<in> set gs. g = Muted \<or> (\<exists>n \<ge> 0. g = Fret n)"
    and "patternOf fs = patternOf gs"
  shows "fs = gs"
proof -
  have "map fretToString fs = map fretToString gs"
    using assms fretToString_plain
    by (intro joinWith_plain_inj) (auto simp: patternOf_def)
  then show ?thesis
    using assms(1-3) by (intro map_fretToString_inj)
qed

section \<open>The enumeration records exactly the accepted selections\<close>

lemma windowStartOf_nonneg: "0 \<le> windowStartOf startFret"
  by (simp add: windowStartOf_def)

lemma stringsOf_nth:
  "i < length sel \<Longrightarrow>
   stringsOf sel ! i = (case sel ! i of Some c \<Rightarrow> Fret (cf_fret c) | None \<Rightarrow> Muted)"
  by (simp add: stringsOf_def)

lemma valid_strings_plain:
  assumes "validSelection (searchEnv chordTones rootPc startFret) sel"
  shows "\<forall>f \<in> set (stringsOf sel). f = Muted \<or> (\<exists>n \<ge> 0. f = Fret n)"
proof
  fix f
  assume "f \<in> set (stringsOf sel)"
  then obtain i where i: "i < length sel" and f: "f = stringsOf sel ! i"
    by (metis in_set_conv_nth stringsOf_length)
  have i6: "i < 6"
    using i assms by (simp add: validSelection_def)
  show "f = Muted \<or> (\<exists>n \<ge> 0. f = Fret n)"
  proof (cases "sel ! i")
    case None
    then show ?thesis using f i by (simp add: stringsOf_nth)
  next
    case (Some c)
    then have "0 \<le> cf_fret c"
      using valid_choice_window [OF assms i6 Some] windowStartOf_nonneg [of startFret] by simp
    then show ?thesis using f i Some by (simp add: stringsOf_nth)
  qed
qed

lemma valid_selection_determined:
  assumes "validSelection (searchEnv chordTones rootPc startFret) sel"
    and "validSelection (searchEnv chordTones rootPc startFret) sel'"
    and "stringsOf sel = stringsOf sel'"
  shows "sel = sel'"
proof (rule nth_equalityI)
  show "length sel = length sel'"
    using assms by (simp add: validSelection_def)
next
  fix i
  assume "i < length sel"
  then have i6: "i < 6" and i: "i < length sel" and i': "i < length sel'"
    using assms by (simp_all add: validSelection_def)
  have e: "(case sel ! i of Some c \<Rightarrow> Fret (cf_fret c) | None \<Rightarrow> Muted)
         = (case sel' ! i of Some c \<Rightarrow> Fret (cf_fret c) | None \<Rightarrow> Muted)"
    using assms(3) i i' by (metis stringsOf_nth)
  show "sel ! i = sel' ! i"
  proof (cases "sel ! i")
    case None
    with e show ?thesis by (cases "sel' ! i") simp_all
  next
    case (Some c)
    with e obtain c' where c': "sel' ! i = Some c'" and fr: "cf_fret c = cf_fret c'"
      by (cases "sel' ! i") simp_all
    have "cf_pitchClass c = cf_pitchClass c'"
      using valid_choice_window [OF assms(1) i6 Some] valid_choice_window [OF assms(2) i6 c'] fr
      by simp
    with fr have "c = c'" by simp
    with Some c' show ?thesis by simp
  qed
qed

lemma enumerated_complete:
  assumes "validSelection (searchEnv chordTones rootPc startFret) sel"
    and "accepts (searchEnv chordTones rootPc startFret) sel"
  shows "voicingOf (searchEnv chordTones rootPc startFret) sel
           \<in> set (enumeratedVoicings chordTones rootPc startFret)"
proof -
  let ?env = "searchEnv chordTones rootPc startFret"
  obtain v where v: "v \<in> set (enumeratedVoicings chordTones rootPc startFret)"
    and p: "patternOf (v_frets v) = patternOf (stringsOf sel)"
    using enumerated_has_pattern [OF assms] by blast
  obtain sel' where s': "validSelection ?env sel'" and vo: "v = voicingOf ?env sel'"
    using enumerated_from_selection [OF v] by blast
  have "length (stringsOf sel') = length (stringsOf sel)"
    using s' assms(1) by (simp add: validSelection_def)
  moreover have "patternOf (stringsOf sel') = patternOf (stringsOf sel)"
    using p vo by simp
  ultimately have "stringsOf sel' = stringsOf sel"
    using valid_strings_plain [OF s'] valid_strings_plain [OF assms(1)]
    by (intro patternOf_inj)
  then have "sel' = sel"
    using s' assms(1) by (intro valid_selection_determined)
  with v vo show ?thesis by simp
qed

lemma enumerated_set:
  "set (enumeratedVoicings chordTones rootPc startFret)
     = voicingOf (searchEnv chordTones rootPc startFret)
         ` {sel. validSelection (searchEnv chordTones rootPc startFret) sel
                 \<and> accepts (searchEnv chordTones rootPc startFret) sel}"
  using enumerated_complete enumerated_from_selection by blast

section \<open>The worked example is a result of the search\<close>

lemma Db_selection_accepted:
  "validSelection (searchEnv [1, 5, 8] 1 1) DbSelection
   \<and> accepts (searchEnv [1, 5, 8] 1 1) DbSelection"
  by code_simp

lemma Db_voicing: "voicingOf (searchEnv [1, 5, 8] 1 1) DbSelection = DbVoicing"
  by code_simp

lemma Db_enumerated: "DbVoicing \<in> set (enumeratedVoicings [1, 5, 8] 1 1)"
  using enumerated_complete [of "[1, 5, 8]" 1 1 DbSelection] Db_selection_accepted
  by (simp add: Db_voicing)

lemma Db_hasFifth: "hasFifth DbVoicing 1 (chordIntervals [1, 5, 8] 1)"
  by code_simp

lemma Db_score: "getVoicingScore DbVoicing 1 4 = Finite (2308094809027379 / 281474976710656)"
  by code_simp

lemma DbScored_simps [simp]:
  "sv_voicing DbScored = DbVoicing"
  "sv_score DbScored = Finite (2308094809027379 / 281474976710656)"
  by (simp_all add: DbScored_def)

lemma generate_keeps_fifth:
  assumes "v \<in> set (enumeratedVoicings chordTones rootPc startFret)"
    and "hasFifth v rootPc (chordIntervals chordTones rootPc)"
  shows "\<lparr>sv_voicing = v, sv_score = getVoicingScore v rootPc 4\<rparr>
           \<in> set (generateChordVoicings chordTones rootPc startFret)"
  using assms by (auto simp: generateChordVoicings_def Let_def list_ex_iff)

lemma Db_generated:
  "DbScored \<in> set (generateChordVoicings [1, 5, 8] 1 1)"
  using generate_keeps_fifth [OF Db_enumerated Db_hasFifth] by (simp add: Db_score DbScored_def)

section \<open>Properties of every voicing the search returns\<close>

text \<open>
  Claim C10. In every voicing the search returns, the six strings and the recorded window
  are as follows: the window runs from \<open>windowStartOf startFret\<close> (0 when \<open>startFret \<le> 1\<close>,
  otherwise \<open>startFret\<close>) to \<open>windowEndOf startFret\<close> (three frets further, at most 12);
  a string that is not muted has its fret inside the window, records the pitch class of
  the open string plus the fret modulo 12, and that pitch class is a chord tone; a muted
  string records no pitch.
\<close>

theorem C10_frets_in_window:
  assumes "sv \<in> set (generateChordVoicings chordTones rootPc startFret)" and "i < 6"
  shows "length (v_frets (sv_voicing sv)) = 6 \<and> length (v_stringPitches (sv_voicing sv)) = 6
       \<and> v_windowStart (sv_voicing sv) = windowStartOf startFret
       \<and> v_windowEnd (sv_voicing sv) = windowEndOf startFret
       \<and> (case v_frets (sv_voicing sv) ! i of
             Muted \<Rightarrow> v_stringPitches (sv_voicing sv) ! i = None
           | Fret f \<Rightarrow>
               windowStartOf startFret \<le> f \<and> f \<le> windowEndOf startFret
               \<and> v_stringPitches (sv_voicing sv) ! i = Some ((STANDARD_TUNING ! i + f) mod 12)
               \<and> (STANDARD_TUNING ! i + f) mod 12 \<in> set chordTones)"
proof -
  let ?env = "searchEnv chordTones rootPc startFret"
  obtain sel where valid: "validSelection ?env sel" and v: "sv_voicing sv = voicingOf ?env sel"
    using generate_from_selection [OF assms(1)] by blast
  have len: "length sel = 6"
    using valid by (simp add: validSelection_def)
  have i: "i < length sel"
    using assms(2) len by simp
  show ?thesis
  proof (cases "sel ! i")
    case None
    then show ?thesis
      using v len i by (simp add: stringsOf_nth)
  next
    case (Some c)
    have w: "windowStartOf startFret \<le> cf_fret c" "cf_fret c \<le> windowEndOf startFret"
      "cf_pitchClass c = (STANDARD_TUNING ! i + cf_fret c) mod 12"
      "cf_pitchClass c \<in> set chordTones"
      using valid_choice_window [OF valid assms(2) Some] by blast+
    have "(STANDARD_TUNING ! i + cf_fret c) mod 12 \<in> set chordTones"
      using w(3,4) by metis
    then show ?thesis
      using w(1,2,3) Some v len i by (simp add: stringsOf_nth)
  qed
qed

theorem C10_frets_in_window_witness:
  "DbScored \<in> set (generateChordVoicings [1, 5, 8] 1 1)
   \<and> (1 :: nat) < 6 \<and> (2 :: nat) < 6
   \<and> v_frets DbVoicing ! 1 = Muted \<and> v_stringPitches DbVoicing ! 1 = None
   \<and> v_frets DbVoicing ! 2 = Fret 3 \<and> windowStartOf 1 \<le> 3 \<and> 3 \<le> windowEndOf 1
   \<and> v_stringPitches DbVoicing ! 2 = Some ((STANDARD_TUNING ! 2 + 3) mod 12)
   \<and> (STANDARD_TUNING ! 2 + 3) mod 12 \<in> set [1, 5, 8 :: int]"
  using C10_frets_in_window [OF Db_generated, of 1] C10_frets_in_window [OF Db_generated, of 2]
    Db_generated
  by (simp add: DbVoicing_def)

text \<open>
  Claim C5. In every voicing the search returns, a string that can sound a required
  interval (root, third or fifth family) at some fret of the window is not muted; so a
  muted string is one that cannot sound a required interval anywhere in the window.
\<close>

theorem C5_capable_strings_sound:
  assumes "sv \<in> set (generateChordVoicings chordTones rootPc startFret)" and "i < 6"
    and "canSoundRequired chordTones rootPc startFret i"
  shows "v_frets (sv_voicing sv) ! i \<noteq> Muted"
proof -
  let ?env = "searchEnv chordTones rootPc startFret"
  obtain sel where valid: "validSelection ?env sel" and acc: "accepts ?env sel"
    and v: "sv_voicing sv = voicingOf ?env sel"
    using generate_from_selection [OF assms(1)] by blast
  have len: "length sel = 6"
    using valid by (simp add: validSelection_def)
  have "sel ! i \<noteq> None"
    using accepts_mute_rule [OF acc len assms(2,3)] .
  then show ?thesis
    using v len assms(2) by (auto simp: stringsOf_nth)
qed

lemma Db_low_string_capable: "canSoundRequired [1, 5, 8] 1 1 0"
proof -
  have "(1 :: int) \<in> {windowStartOf 1..windowEndOf 1}"
    by (simp add: windowStartOf_def windowEndOf_def)
  moreover have "(STANDARD_TUNING ! 0 + 1 - 1) mod 12 \<in> RequiredIntervals [1, 5, 8] 1"
    by (simp add: STANDARD_TUNING_def RequiredIntervals_def intervalSet_def)
  ultimately show ?thesis
    unfolding canSoundRequired_def by blast
qed

theorem C5_capable_strings_sound_witness:
  "DbScored \<in> set (generateChordVoicings [1, 5, 8] 1 1)
   \<and> (0 :: nat) < 6 \<and> canSoundRequired [1, 5, 8] 1 1 0 \<and> v_frets DbVoicing ! 0 \<noteq> Muted"
  using C5_capable_strings_sound [OF Db_generated _ Db_low_string_capable]
    Db_generated Db_low_string_capable
  by simp

text \<open>
  Claim C1. Every voicing the search returns sounds every required interval (the root 0,
  the third 3 or 4 if the chord has one, every fifth-family interval 6, 7, 8 of the chord);
  the span between its lowest and highest sounded fret is at most the window width 3 (and
  is the span it records); and no two voicings of one search result have the same fret
  pattern.
\<close>

theorem C1_voicing_invariant:
  assumes "sv \<in> set (generateChordVoicings chordTones rootPc startFret)"
  shows "RequiredIntervals chordTones rootPc \<subseteq> soundedIntervals (sv_voicing sv) rootPc
       \<and> fretNumbers (v_frets (sv_voicing sv)) \<noteq> []
       \<and> frettedSpan (sv_voicing sv) \<le> WINDOW_FRET_SPAN
       \<and> span_max (v_fretSpan (sv_voicing sv)) - span_min (v_fretSpan (sv_voicing sv))
           = frettedSpan (sv_voicing sv)
       \<and> distinct (map (\<lambda>sv. v_frets (sv_voicing sv))
                     (generateChordVoicings chordTones rootPc startFret))"
proof -
  let ?env = "searchEnv chordTones rootPc startFret"
  obtain sel where acc: "accepts ?env sel" and v: "sv_voicing sv = voicingOf ?env sel"
    using generate_from_selection [OF assms(1)] by blast
  have "RequiredIntervals chordTones rootPc \<subseteq> soundedIntervals (sv_voicing sv) rootPc"
    using accepts_required [OF acc] v by simp
  moreover have "fretNumbers (v_frets (sv_voicing sv)) \<noteq> []"
    using accepts_span(2) [OF acc] v by auto
  moreover have "frettedSpan (sv_voicing sv) \<le> WINDOW_FRET_SPAN"
    using accepts_span(1) [OF acc] v
    by (simp add: frettedSpan_def Math_max_def Math_min_def WINDOW_FRET_SPAN_def)
  moreover have "span_max (v_fretSpan (sv_voicing sv)) - span_min (v_fretSpan (sv_voicing sv))
                   = frettedSpan (sv_voicing sv)"
    using v by (simp add: frettedSpan_def voicingOf_def fretNumbers_stringsOf Math_max_def Math_min_def)
  ultimately show ?thesis
    using generate_distinct_frets [of chordTones rootPc startFret] by simp
qed

theorem C1_voicing_invariant_witness:
  "DbScored \<in> set (generateChordVoicings [1, 5, 8] 1 1)
   \<and> RequiredIntervals [1, 5, 8] 1 = {0, 4, 7}
   \<and> {0, 4, 7} \<subseteq> soundedIntervals DbVoicing 1
   \<and> frettedSpan DbVoicing \<le> WINDOW_FRET_SPAN
   \<and> distinct (map (\<lambda>sv. v_frets (sv_voicing sv)) (generateChordVoicings [1, 5, 8] 1 1))"
proof -
  have r: "RequiredIntervals [1, 5, 8] 1 = {0, 4, 7}"
    by (auto simp: RequiredIntervals_def intervalSet_def)
  show ?thesis
    using C1_voicing_invariant [OF Db_generated] Db_generated r by simp
qed

section \<open>The fifth filter\<close>

lemma soundedIntervals_iff:
  "x \<in> soundedIntervals v rootPc
     \<longleftrightarrow> (\<exists>p. Some p \<in> set (v_stringPitches v) \<and> x = (p - rootPc) mod 12)"
  by (auto simp: soundedIntervals_def soundedPitches_def in_these_eq)

lemma hasFifth_soundsFifth:
  "hasFifth v rootPc (chordIntervals chordTones rootPc) = soundsFifth chordTones rootPc v"
proof -
  have f: "set (getFifthIntervals (chordIntervals chordTones rootPc))
         = intervalSet chordTones rootPc \<inter> {6, 7, 8}"
    by (auto simp: getFifthIntervals_def chordIntervals_set)
  have "hasFifth v rootPc (chordIntervals chordTones rootPc)
      = (\<exists>p. Some p \<in> set (v_stringPitches v)
             \<and> (p - rootPc) mod 12 \<in> intervalSet chordTones rootPc \<inter> {6, 7, 8})"
    unfolding hasFifth_def Let_def list_ex_iff f normalizePitch_mod
  proof
    assume "\<exists>pitch \<in> set (v_stringPitches v).
              case pitch of None \<Rightarrow> False
              | Some p \<Rightarrow> (p - rootPc) mod 12 \<in> intervalSet chordTones rootPc \<inter> {6, 7, 8}"
    then obtain pitch where m: "pitch \<in> set (v_stringPitches v)"
      and c: "case pitch of None \<Rightarrow> False
              | Some p \<Rightarrow> (p - rootPc) mod 12 \<in> intervalSet chordTones rootPc \<inter> {6, 7, 8}"
      by blast
    show "\<exists>p. Some p \<in> set (v_stringPitches v)
                 \<and> (p - rootPc) mod 12 \<in> intervalSet chordTones rootPc \<inter> {6, 7, 8}"
    proof (cases pitch)
      case None
      with c show ?thesis by simp
    next
      case (Some p)
      with c m show ?thesis by auto
    qed
  next
    assume "\<exists>p. Some p \<in> set (v_stringPitches v)
                 \<and> (p - rootPc) mod 12 \<in> intervalSet chordTones rootPc \<inter> {6, 7, 8}"
    then obtain p where "Some p \<in> set (v_stringPitches v)"
      and "(p - rootPc) mod 12 \<in> intervalSet chordTones rootPc \<inter> {6, 7, 8}"
      by blast
    then show "\<exists>pitch \<in> set (v_stringPitches v).
              case pitch of None \<Rightarrow> False
              | Some p \<Rightarrow> (p - rootPc) mod 12 \<in> intervalSet chordTones rootPc \<inter> {6, 7, 8}"
      by (intro bexI [of _ "Some p"]) simp_all
  qed
  also have "\<dots> = (\<exists>x. x \<in> soundedIntervals v rootPc
                      \<and> x \<in> intervalSet chordTones rootPc \<inter> {6, 7, 8})"
    unfolding soundedIntervals_iff by blast
  also have "\<dots> = soundsFifth chordTones rootPc v"
    unfolding soundsFifth_def by blast
  finally show ?thesis .
qed

text \<open>
  Claim C4. If at least one enumerated voicing sounds a fifth-family interval of the
  chord, then every voicing of the returned list sounds one: no voicing without it is
  left.
\<close>

theorem C4_fifth_filter:
  assumes "\<exists>v \<in> set (enumeratedVoicings chordTones rootPc startFret). soundsFifth chordTones rootPc v"
  shows "\<forall>sv \<in> set (generateChordVoicings chordTones rootPc startFret).
           soundsFifth chordTones rootPc (sv_voicing sv)"
proof -
  have "list_ex (\<lambda>voicing. hasFifth voicing rootPc (chordIntervals chordTones rootPc))
          (enumeratedVoicings chordTones rootPc startFret)"
    using assms by (simp add: list_ex_iff hasFifth_soundsFifth)
  then show ?thesis
    by (auto simp: generateChordVoicings_def Let_def hasFifth_soundsFifth)
qed

theorem C4_fifth_filter_witness:
  "DbVoicing \<in> set (enumeratedVoicings [1, 5, 8] 1 1) \<and> soundsFifth [1, 5, 8] 1 DbVoicing
   \<and> DbScored \<in> set (generateChordVoicings [1, 5, 8] 1 1)
   \<and> soundsFifth [1, 5, 8] 1 (sv_voicing DbScored)"
proof -
  have s: "soundsFifth [1, 5, 8] 1 DbVoicing"
    using Db_hasFifth by (simp add: hasFifth_soundsFifth)
  then have "\<exists>v \<in> set (enumeratedVoicings [1, 5, 8] 1 1). soundsFifth [1, 5, 8] 1 v"
    using Db_enumerated by blast
  then have "soundsFifth [1, 5, 8] 1 (sv_voicing DbScored)"
    using C4_fifth_filter [of "[1, 5, 8]" 1 1] Db_generated by blast
  then show ?thesis
    using Db_enumerated Db_generated s by blast
qed

section \<open>The score of a voicing\<close>

lemma fretNumbers_snoc:
  "fretNumbers (fs @ [f]) = fretNumbers fs @ (case f of Fret n \<Rightarrow> [n] | Muted \<Rightarrow> [])"
  by (induction fs rule: fretNumbers.induct) (simp_all split: FretValue.splits)

lemma soundedStrings_snoc:
  "soundedStrings (fs @ [f]) = soundedStrings fs @ (if f \<noteq> Muted then [length fs] else [])"
proof -
  have "filter (\<lambda>i. (fs @ [f]) ! i \<noteq> Muted) [0..<length fs] = filter (\<lambda>i. fs ! i \<noteq> Muted) [0..<length fs]"
    by (rule filter_cong) (simp_all add: nth_append)
  then show ?thesis
    by (simp add: soundedStrings_def)
qed

lemma fretNumbers_sounded:
  "fretNumbers frets = map (fretAt frets) (soundedStrings frets)"
proof (induction frets rule: rev_induct)
  case Nil
  then show ?case by (simp add: soundedStrings_def)
next
  case (snoc f fs)
  have "map (fretAt (fs @ [f])) (soundedStrings fs) = map (fretAt fs) (soundedStrings fs)"
    by (rule map_cong) (simp_all add: soundedStrings_def fretAt_def nth_append)
  then show ?case
    using snoc by (cases f) (simp_all add: fretNumbers_snoc soundedStrings_snoc fretAt_def)
qed

lemma Math_min_sounded: "Math_min (fretNumbers frets) = minSoundedFret frets"
  by (simp add: Math_min_def minSoundedFret_def fretNumbers_sounded)

lemma Math_max_sounded: "Math_max (fretNumbers frets) = maxSoundedFret frets"
  by (simp add: Math_max_def maxSoundedFret_def fretNumbers_sounded)

lemma jumpAt_Cons: "jumpAt (c # fs) (Suc i) = jumpAt fs i"
  unfolding jumpAt_def fretAt_def by simp

lemma jumpPenalty_sum:
  "jumpPenalty frets = (\<Sum>i \<leftarrow> [0..<length frets - 1]. jumpAt frets i)"
proof (induction frets rule: jumpPenalty.induct)
  case (1 current nxt rest)
  have shift: "[0..<Suc (length rest)] = 0 # map Suc [0..<length rest]"
    by (simp add: upt_conv_Cons map_Suc_upt del: upt_Suc)
  have tail: "(\<Sum>i \<leftarrow> [0..<length rest]. jumpAt (current # nxt # rest) (Suc i))
            = (\<Sum>i \<leftarrow> [0..<length rest]. jumpAt (nxt # rest) i)"
    by (simp add: jumpAt_Cons)
  have head: "jumpAt (current # nxt # rest) 0
            = (case (current, nxt) of
                 (Fret c, Fret n) \<Rightarrow> (let diff = \<bar>c - n\<bar> in if diff > 3 then diff - 3 else 0)
               | _ \<Rightarrow> 0)"
    by (simp add: jumpAt_def fretAt_def Let_def split: FretValue.splits)
  have "(\<Sum>i \<leftarrow> [0..<length (current # nxt # rest) - 1]. jumpAt (current # nxt # rest) i)
      = jumpAt (current # nxt # rest) 0
        + (\<Sum>i \<leftarrow> [0..<length rest]. jumpAt (current # nxt # rest) (Suc i))"
    by (simp add: shift o_def del: upt_Suc)
  then show ?case
    using 1 by (simp add: head tail del: upt_Suc)
qed simp_all

lemma muted_count:
  "length (filter (\<lambda>fret. fret = Muted) frets) = mutedStringCount frets"
proof -
  have "{i. i < length frets \<and> frets ! i = Muted} = {i \<in> set [0..<length frets]. frets ! i = Muted}"
    by auto
  then show ?thesis
    by (simp add: length_filter_conv_card mutedStringCount_def)
qed

lemma sounded_count: "length (fretNumbers frets) = length (soundedStrings frets)"
  by (simp add: fretNumbers_sounded)

lemma findIndex_Some:
  "findIndex P xs = Some i \<longleftrightarrow> i < length xs \<and> P (xs ! i) \<and> (\<forall>j < i. \<not> P (xs ! j))"
proof (induction xs arbitrary: i)
  case Nil
  then show ?case by simp
next
  case (Cons x xs)
  show ?case
  proof (cases "P x")
    case True
    then show ?thesis by (cases i) auto
  next
    case False
    show ?thesis
    proof (cases i)
      case 0
      with False show ?thesis by auto
    next
      case (Suc k)
      have "(\<forall>j < Suc k. \<not> P ((x # xs) ! j)) = (\<forall>j < k. \<not> P (xs ! j))"
        using False by (auto simp: less_Suc_eq_0_disj)
      with False Suc Cons [of k] show ?thesis by auto
    qed
  qed
qed

lemma findIndex_None: "findIndex P xs = None \<longleftrightarrow> (\<forall>x \<in> set xs. \<not> P x)"
  by (induction xs) auto

lemma findIndex_sounded:
  assumes "soundedStrings frets \<noteq> []"
  shows "findIndex (\<lambda>fret. fret \<noteq> Muted) frets = Some (Min (set (soundedStrings frets)))"
proof -
  let ?S = "set (soundedStrings frets)"
  let ?b = "Min ?S"
  have fin: "finite ?S" and ne: "?S \<noteq> {}"
    using assms by simp_all
  have "?b \<in> ?S"
    using Min_in [OF fin ne] .
  then have b: "?b < length frets" "frets ! ?b \<noteq> Muted"
    by (simp_all add: soundedStrings_def)
  have "frets ! j = Muted" if "j < ?b" for j
  proof (rule ccontr)
    assume "frets ! j \<noteq> Muted"
    then have "j \<in> ?S"
      using that b(1) by (simp add: soundedStrings_def)
    then have "?b \<le> j"
      using fin by simp
    with that show False by simp
  qed
  with b show ?thesis
    by (simp add: findIndex_Some)
qed

lemma getVoicingScore_none:
  "fretNumbers (v_frets v) = [] \<Longrightarrow> getVoicingScore v rootPc targetStrings = PositiveInfinity"
  by (simp add: getVoicingScore_def)

text \<open>
  For a voicing with a sounded string whose lowest sounded string records a pitch, the
  score of the program is the sum of the terms, in double arithmetic.
\<close>

lemma getVoicingScore_terms:
  assumes "fretNumbers (v_frets v) \<noteq> []"
    and "Min (set (soundedStrings (v_frets v))) < length (v_stringPitches v)"
    and "bassPitchOf v \<noteq> None"
  shows "getVoicingScore v rootPc targetStrings = Finite (scoreOf v rootPc targetStrings)"
proof -
  have ne: "soundedStrings (v_frets v) \<noteq> []"
    using assms(1) by (simp add: fretNumbers_sounded)
  obtain p where p: "v_stringPitches v ! Min (set (soundedStrings (v_frets v))) = Some p"
    using assms(3) by (auto simp: bassPitchOf_def)
  show ?thesis
    unfolding getVoicingScore_def Let_def scoreOf_def integerPenalties_def
    using assms(1,2) p
    by (simp add: findIndex_sounded [OF ne] Math_min_sounded Math_max_sounded jumpPenalty_sum
          muted_count sounded_count bassPitchOf_def)
qed

lemma number_le_Finite [simp]: "number_le (Finite a) (Finite b) = (a \<le> b)"
  by (auto simp: number_le_def)

lemma generated_score:
  assumes "sv \<in> set (generateChordVoicings chordTones rootPc startFret)"
  shows "sv_score sv = Finite (scoreOf (sv_voicing sv) rootPc 4)"
proof -
  let ?env = "searchEnv chordTones rootPc startFret"
  obtain sel where valid: "validSelection ?env sel" and acc: "accepts ?env sel"
    and v: "sv_voicing sv = voicingOf ?env sel"
    using generate_from_selection [OF assms] by blast
  have len: "length sel = 6"
    using valid by (simp add: validSelection_def)
  have ne: "fretNumbers (v_frets (sv_voicing sv)) \<noteq> []"
    using accepts_span(2) [OF acc] v by auto
  then have "soundedStrings (stringsOf sel) \<noteq> []"
    using v by (simp add: fretNumbers_sounded)
  then have "Min (set (soundedStrings (stringsOf sel))) \<in> set (soundedStrings (stringsOf sel))"
    by (intro Min_in) simp_all
  then have b: "Min (set (soundedStrings (stringsOf sel))) < length sel"
    and m: "stringsOf sel ! Min (set (soundedStrings (stringsOf sel))) \<noteq> Muted"
    by (simp_all add: soundedStrings_def)
  have "sel ! Min (set (soundedStrings (stringsOf sel))) \<noteq> None"
    using m b by (simp add: stringsOf_Muted)
  then have "bassPitchOf (sv_voicing sv) \<noteq> None"
    using v b by (simp add: bassPitchOf_def)
  moreover have "Min (set (soundedStrings (v_frets (sv_voicing sv)))) < length (v_stringPitches (sv_voicing sv))"
    using v b by simp
  ultimately have "getVoicingScore (sv_voicing sv) rootPc 4 = Finite (scoreOf (sv_voicing sv) rootPc 4)"
    using ne by (intro getVoicingScore_terms)
  then show ?thesis
    using generate_member(2) [OF assms] by simp
qed

lemma generated_sorted:
  "sorted (map (\<lambda>sv. scoreOf (sv_voicing sv) rootPc 4) (generateChordVoicings chordTones rootPc startFret))"
proof -
  have "sorted_wrt (\<lambda>a b. number_le (sv_score a) (sv_score b))
          (generateChordVoicings chordTones rootPc startFret)"
    by (simp add: generateChordVoicings_def Let_def sortByScore_sorted)
  then have "sorted_wrt (\<lambda>a b. scoreOf (sv_voicing a) rootPc 4 \<le> scoreOf (sv_voicing b) rootPc 4)
          (generateChordVoicings chordTones rootPc startFret)"
    by (rule sorted_wrt_mono_rel [rotated]) (simp add: generated_score)
  then show ?thesis
    by (simp add: sorted_map)
qed

text \<open>
  Claim C3. The list the search returns is in ascending order of score. The score of each
  returned voicing is the sum, formed in the double arithmetic of the program, of the
  integer terms and of 0.2 times the lowest sounded fret. The integer terms are: twice the
  span between the lowest and the highest sounded fret; for each pair of neighbouring
  strings that both sound and differ by more than 3 frets, the difference less 3; the number
  of muted strings; 2 unless the sounded string of lowest index has the root as its pitch
  class; and the distance of the number of sounded strings from 4. The same sum is the
  score that \<open>getVoicingScore\<close> gives to any voicing, returned by a search or not, that has a
  sounded string and records a pitch for its lowest sounded string. A voicing without a
  sounded string has the score positive infinity.
\<close>

theorem C3_sorted_by_score:
  "sorted (map (\<lambda>sv. scoreOf (sv_voicing sv) rootPc 4)
             (generateChordVoicings chordTones rootPc startFret))
   \<and> (sv \<in> set (generateChordVoicings chordTones rootPc startFret)
        \<longrightarrow> sv_score sv = Finite (scoreOf (sv_voicing sv) rootPc 4))
   \<and> (soundedStrings (v_frets v) \<noteq> []
        \<and> Min (set (soundedStrings (v_frets v))) < length (v_stringPitches v)
        \<and> bassPitchOf v \<noteq> None
        \<longrightarrow> getVoicingScore v rootPc targetStrings = Finite (scoreOf v rootPc targetStrings))
   \<and> (soundedStrings (v_frets v) = []
        \<longrightarrow> getVoicingScore v rootPc targetStrings = PositiveInfinity)"
  using generated_sorted [of rootPc chordTones startFret]
    generated_score [of sv chordTones rootPc startFret]
    getVoicingScore_none [of v rootPc targetStrings]
    getVoicingScore_terms [of v rootPc targetStrings]
  by (simp add: fretNumbers_sounded)

lemma Bsus_generated: "BsusScored \<in> set (generateChordVoicings [11, 4, 6] 11 5)"
proof -
  have a: "validSelection (searchEnv [11, 4, 6] 11 5) BsusSelection
         \<and> accepts (searchEnv [11, 4, 6] 11 5) BsusSelection"
    by code_simp
  have v: "voicingOf (searchEnv [11, 4, 6] 11 5) BsusSelection = BsusVoicing"
    by code_simp
  have f: "hasFifth BsusVoicing 11 (chordIntervals [11, 4, 6] 11)"
    by code_simp
  have s: "getVoicingScore BsusVoicing 11 4 = Finite (1914029841632461 / 562949953421312)"
    by code_simp
  have "BsusVoicing \<in> set (enumeratedVoicings [11, 4, 6] 11 5)"
    using enumerated_complete [of "[11, 4, 6]" 11 5 BsusSelection] a by (simp add: v)
  then show ?thesis
    using generate_keeps_fifth [OF _ f] by (simp add: s BsusScored_def)
qed

lemma example_penalties:
  "integerPenalties DbVoicing 1 4 = (3 - 1) * 2 + 0 + 1 + 2 + 1"
  "minSoundedFret (v_frets DbVoicing) = 1"
  "integerPenalties BsusVoicing 11 4 = (7 - 7) * 2 + 0 + 2 + 0 + 0"
  "minSoundedFret (v_frets BsusVoicing) = 7"
  "integerPenalties jumpVoicing 5 4 = (6 - 1) * 2 + ((5 - 3) + (4 - 3)) + 3 + 0 + 1"
  "minSoundedFret (v_frets jumpVoicing) = 1"
  by code_simp+

lemma jumpVoicing_sounds:
  "soundedStrings (v_frets jumpVoicing) \<noteq> []
   \<and> Min (set (soundedStrings (v_frets jumpVoicing))) < length (v_stringPitches jumpVoicing)
   \<and> bassPitchOf jumpVoicing \<noteq> None"
  by code_simp

lemma example_scoreOf:
  "scoreOf DbVoicing 1 4 = 2308094809027379 / 281474976710656"
  "scoreOf BsusVoicing 11 4 = 1914029841632461 / 562949953421312"
  "scoreOf jumpVoicing 5 4 = 4841369599423283 / 281474976710656"
  by code_simp+

theorem C3_sorted_by_score_witness:
  "DbScored \<in> set (generateChordVoicings [1, 5, 8] 1 1)
   \<and> sv_score DbScored = Finite (scoreOf DbVoicing 1 4)
   \<and> integerPenalties DbVoicing 1 4 = (3 - 1) * 2 + 0 + 1 + 2 + 1
   \<and> scoreOf DbVoicing 1 4 = 2308094809027379 / 281474976710656
   \<and> BsusScored \<in> set (generateChordVoicings [11, 4, 6] 11 5)
   \<and> sv_score BsusScored = Finite (scoreOf BsusVoicing 11 4)
   \<and> integerPenalties BsusVoicing 11 4 = (7 - 7) * 2 + 0 + 2 + 0 + 0
   \<and> scoreOf BsusVoicing 11 4 = 1914029841632461 / 562949953421312
   \<and> scoreOf BsusVoicing 11 4 \<noteq> 2 + 7 * (1 / 5)
   \<and> soundedStrings (v_frets jumpVoicing) \<noteq> []
   \<and> Min (set (soundedStrings (v_frets jumpVoicing))) < length (v_stringPitches jumpVoicing)
   \<and> bassPitchOf jumpVoicing \<noteq> None
   \<and> getVoicingScore jumpVoicing 5 4 = Finite (scoreOf jumpVoicing 5 4)
   \<and> integerPenalties jumpVoicing 5 4 = (6 - 1) * 2 + ((5 - 3) + (4 - 3)) + 3 + 0 + 1
   \<and> scoreOf jumpVoicing 5 4 = 4841369599423283 / 281474976710656
   \<and> soundedStrings (v_frets allMuted) = []
   \<and> getVoicingScore allMuted 1 4 = PositiveInfinity
   \<and> sorted (map (\<lambda>sv. scoreOf (sv_voicing sv) 1 4) (generateChordVoicings [1, 5, 8] 1 1))"
proof -
  have e: "soundedStrings (v_frets allMuted) = []"
    by (simp add: allMuted_def soundedStrings_def upt_rec)
  have c1: "sv_score DbScored = Finite (scoreOf DbVoicing 1 4)
          \<and> sorted (map (\<lambda>sv. scoreOf (sv_voicing sv) 1 4) (generateChordVoicings [1, 5, 8] 1 1))
          \<and> getVoicingScore allMuted 1 4 = PositiveInfinity"
    using C3_sorted_by_score [of 1 "[1, 5, 8]" 1 DbScored allMuted 4] Db_generated e by simp
  have c2: "sv_score BsusScored = Finite (scoreOf BsusVoicing 11 4)"
    using C3_sorted_by_score [of 11 "[11, 4, 6]" 5 BsusScored allMuted 4] Bsus_generated
    by (simp add: BsusScored_def)
  have c3: "getVoicingScore jumpVoicing 5 4 = Finite (scoreOf jumpVoicing 5 4)"
    using C3_sorted_by_score [of 5 "[]" 1 DbScored jumpVoicing 4] jumpVoicing_sounds by simp
  show ?thesis
    using Db_generated Bsus_generated jumpVoicing_sounds example_penalties(1,3,5) e c1 c2 c3
    by (simp add: example_scoreOf)
qed

section \<open>The best-position driver\<close>

lemma positions: "[1..TOTAL_FRETS] = [1, 2, 3, 4, 5, 6, 7, 8, 9, 10, 11, 12]"
  by (simp add: TOTAL_FRETS_def upto_rec1)

lemma bestStep_empty:
  "generateChordVoicings chordTones rootPc startFret = [] \<Longrightarrow>
   bestStep chordTones rootPc startFret best = best"
  by (simp add: bestStep_def)

lemma bestStep_candidate:
  "generateChordVoicings chordTones rootPc startFret = candidate # rest \<Longrightarrow>
   bestStep chordTones rootPc startFret best =
     (case best of
        None \<Rightarrow> Some candidate
      | Some b \<Rightarrow> if number_less (adjustedScore candidate startFret) (storedScore b)
                  then Some candidate else Some b)"
  by (simp only: bestStep_def adjustedScore_def storedScore_def Let_def list.case)

lemma bestStep_source:
  "bestStep chordTones rootPc startFret best = best
   \<or> (\<exists>sv \<in> set (generateChordVoicings chordTones rootPc startFret).
         bestStep chordTones rootPc startFret best = Some sv)"
proof (cases "generateChordVoicings chordTones rootPc startFret")
  case Nil
  then show ?thesis by (simp add: bestStep_empty)
next
  case (Cons candidate rest)
  then show ?thesis
    by (cases best) (auto simp: bestStep_candidate)
qed

lemma bestStep_keeps: "best \<noteq> None \<Longrightarrow> bestStep chordTones rootPc startFret best \<noteq> None"
  by (cases "generateChordVoicings chordTones rootPc startFret")
     (auto simp: bestStep_empty bestStep_candidate)

lemma bestStep_finds:
  "generateChordVoicings chordTones rootPc startFret \<noteq> [] \<Longrightarrow>
   bestStep chordTones rootPc startFret best \<noteq> None"
  by (cases "generateChordVoicings chordTones rootPc startFret"; cases best)
     (auto simp: bestStep_candidate)

lemma scan_source:
  "fold (bestStep chordTones rootPc) xs best = Some b \<Longrightarrow>
   best = Some b \<or> (\<exists>s \<in> set xs. b \<in> set (generateChordVoicings chordTones rootPc s))"
proof (induction xs arbitrary: best)
  case Nil
  then show ?case by simp
next
  case (Cons x xs)
  then have "bestStep chordTones rootPc x best = Some b
           \<or> (\<exists>s \<in> set xs. b \<in> set (generateChordVoicings chordTones rootPc s))"
    by simp
  then show ?case
    using bestStep_source [of chordTones rootPc x best] by auto
qed

lemma scan_keeps: "best \<noteq> None \<Longrightarrow> fold (bestStep chordTones rootPc) xs best \<noteq> None"
proof (induction xs arbitrary: best)
  case Nil
  then show ?case by simp
next
  case (Cons x xs)
  have "bestStep chordTones rootPc x best \<noteq> None"
    using Cons.prems by (rule bestStep_keeps)
  then have "fold (bestStep chordTones rootPc) xs (bestStep chordTones rootPc x best) \<noteq> None"
    by (rule Cons.IH)
  then show ?case by simp
qed

lemma scan_finds:
  "s \<in> set xs \<Longrightarrow> generateChordVoicings chordTones rootPc s \<noteq> [] \<Longrightarrow>
   fold (bestStep chordTones rootPc) xs best \<noteq> None"
proof (induction xs arbitrary: best)
  case Nil
  then show ?case by simp
next
  case (Cons x xs)
  show ?case
  proof (cases "s = x")
    case True
    then show ?thesis
      using Cons.prems by (simp add: scan_keeps bestStep_finds)
  next
    case False
    then show ?thesis
      using Cons by simp
  qed
qed

lemma scan_nothing:
  "\<forall>s \<in> set xs. generateChordVoicings chordTones rootPc s = [] \<Longrightarrow>
   fold (bestStep chordTones rootPc) xs best = best"
  by (induction xs arbitrary: best) (simp_all add: bestStep_empty)

lemma buildChordShape_all_muted:
  "buildChordShape [Muted, Muted, Muted, Muted, Muted, Muted] None = mutedShape"
  by code_simp

lemma buildChordShape_frets [simp]: "sh_frets (buildChordShape frets fingers) = frets"
  by (simp add: buildChordShape_def Let_def)

lemma getBestVoicingShape_source:
  "getBestVoicingShape chordTones rootPc = mutedShape
   \<or> (\<exists>s \<in> {1..12}. \<exists>sv \<in> set (generateChordVoicings chordTones rootPc s).
         getBestVoicingShape chordTones rootPc = buildChordShape (v_frets (sv_voicing sv)) None)"
proof (cases "scanBest chordTones rootPc")
  case None
  then show ?thesis
    by (simp add: getBestVoicingShape_def buildChordShape_all_muted)
next
  case (Some b)
  then have "\<exists>s \<in> set [1..TOTAL_FRETS]. b \<in> set (generateChordVoicings chordTones rootPc s)"
    using scan_source [of chordTones rootPc "[1..TOTAL_FRETS]" None b]
    by (simp add: scanBest_def)
  then have "\<exists>s \<in> {1..12}. b \<in> set (generateChordVoicings chordTones rootPc s)"
    by (simp add: TOTAL_FRETS_def)
  then show ?thesis
    using Some by (auto simp: getBestVoicingShape_def)
qed

text \<open>
  Claim C9. The driver is a total function: it returns a shape for every chord-tone list
  and root, either the all-muted shape or the shape built from a result of the search at
  one of the starting frets 1 to 12. When the search finds nothing at any of these starting
  frets, the result is the all-muted shape: six muted strings, no fingers, no barre, and
  display start fret 1.
\<close>

theorem C9_driver_fallback:
  "(getBestVoicingShape chordTones rootPc = mutedShape
    \<or> (\<exists>s \<in> {1..12}. \<exists>sv \<in> set (generateChordVoicings chordTones rootPc s).
          getBestVoicingShape chordTones rootPc = buildChordShape (v_frets (sv_voicing sv)) None))
   \<and> ((\<forall>s \<in> {1..12}. generateChordVoicings chordTones rootPc s = [])
        \<longrightarrow> getBestVoicingShape chordTones rootPc = mutedShape)"
proof -
  have "getBestVoicingShape chordTones rootPc = mutedShape"
    if "\<forall>s \<in> {1..12}. generateChordVoicings chordTones rootPc s = []"
  proof -
    have "\<forall>s \<in> set [1..TOTAL_FRETS]. generateChordVoicings chordTones rootPc s = []"
      using that by (simp add: TOTAL_FRETS_def)
    then have "scanBest chordTones rootPc = None"
      unfolding scanBest_def by (rule scan_nothing)
    then show ?thesis
      by (simp add: getBestVoicingShape_def buildChordShape_all_muted)
  qed
  then show ?thesis
    using getBestVoicingShape_source [of chordTones rootPc] by blast
qed

lemma generated_required:
  assumes "sv \<in> set (generateChordVoicings chordTones rootPc startFret)"
  shows "RequiredIntervals chordTones rootPc \<subseteq> soundedIntervals (sv_voicing sv) rootPc"
proof -
  obtain sel where "accepts (searchEnv chordTones rootPc startFret) sel"
    and "sv_voicing sv = voicingOf (searchEnv chordTones rootPc startFret) sel"
    using generate_from_selection [OF assms] by blast
  then show ?thesis
    using accepts_required by simp
qed

lemma sounded_pitch_in_chord:
  assumes "sv \<in> set (generateChordVoicings chordTones rootPc startFret)"
    and "i < length (v_stringPitches (sv_voicing sv))"
    and "v_stringPitches (sv_voicing sv) ! i = Some p"
  shows "p \<in> set chordTones"
proof -
  let ?env = "searchEnv chordTones rootPc startFret"
  obtain sel where valid: "validSelection ?env sel" and v: "sv_voicing sv = voicingOf ?env sel"
    using generate_from_selection [OF assms(1)] by blast
  have i: "i < 6" "i < length sel"
    using assms(2) v valid by (simp_all add: validSelection_def)
  obtain c where c: "sel ! i = Some c" and cp: "cf_pitchClass c = p"
    using assms(3) v i by auto
  have "cf_pitchClass c \<in> set chordTones"
    using valid_choice_window [OF valid i(1) c] by blast
  then show ?thesis
    unfolding cp .
qed

text \<open>A chord-tone list without the root has no voicing: the root interval cannot sound.\<close>

lemma no_root_no_voicing:
  assumes "\<forall>tone \<in> set chordTones. (tone - rootPc) mod 12 \<noteq> 0"
  shows "generateChordVoicings chordTones rootPc startFret = []"
proof (rule ccontr)
  assume "generateChordVoicings chordTones rootPc startFret \<noteq> []"
  then obtain sv where sv: "sv \<in> set (generateChordVoicings chordTones rootPc startFret)"
    by (cases "generateChordVoicings chordTones rootPc startFret") auto
  have "0 \<in> RequiredIntervals chordTones rootPc"
    by (simp add: RequiredIntervals_def Let_def)
  then have "0 \<in> soundedIntervals (sv_voicing sv) rootPc"
    using generated_required [OF sv] by blast
  then obtain p where p: "Some p \<in> set (v_stringPitches (sv_voicing sv))" and z: "(p - rootPc) mod 12 = 0"
    unfolding soundedIntervals_iff by auto
  obtain i where i: "i < length (v_stringPitches (sv_voicing sv))"
    and pi: "v_stringPitches (sv_voicing sv) ! i = Some p"
    using p by (metis in_set_conv_nth)
  have "p \<in> set chordTones"
    using sounded_pitch_in_chord [OF sv i pi] .
  then have "(p - rootPc) mod 12 \<noteq> 0"
    using assms by (rule bspec [rotated])
  with z show False by simp
qed


theorem C9_driver_fallback_witness:
  "map (generateChordVoicings [2] 0) [1, 2, 3, 4, 5, 6, 7, 8, 9, 10, 11, 12]
     = [[], [], [], [], [], [], [], [], [], [], [], []]
   \<and> getBestVoicingShape [2] 0 = mutedShape
   \<and> sh_frets (getBestVoicingShape [2] 0) = [Muted, Muted, Muted, Muted, Muted, Muted]
   \<and> sh_fingers (getBestVoicingShape [2] 0) = [None, None, None, None, None, None]
   \<and> sh_startFret (getBestVoicingShape [2] 0) = 1
   \<and> sh_barre (getBestVoicingShape [2] 0) = None"
proof -
  have e: "generateChordVoicings [2] 0 s = []" for s
    by (rule no_root_no_voicing) simp
  then have "getBestVoicingShape [2] 0 = mutedShape"
    using C9_driver_fallback [of "[2]" 0] by blast
  then show ?thesis
    using e by (simp add: mutedShape_def)
qed

section \<open>Every major and minor triad has a voicing\<close>

lemma major_fingerings_accepted:
  "list_all (\<lambda>rootPc. fingeringAccepted (majorTriad rootPc) rootPc (majorFingerings ! nat rootPc))
     [0, 1, 2, 3, 4, 5, 6, 7, 8, 9, 10, 11]"
  by code_simp

lemma minor_fingerings_accepted:
  "list_all (\<lambda>rootPc. fingeringAccepted (minorTriad rootPc) rootPc (minorFingerings ! nat rootPc))
     [0, 1, 2, 3, 4, 5, 6, 7, 8, 9, 10, 11]"
  by code_simp

lemma roots_list: "rootPc \<in> {0..11} \<Longrightarrow> rootPc \<in> set [0, 1, 2, 3, 4, 5, 6, 7, 8, 9, 10, 11 :: int]"
proof -
  assume "rootPc \<in> {0..11}"
  then have "rootPc \<in> set [0..11]" by simp
  moreover have "[0..11] = [0, 1, 2, 3, 4, 5, 6, 7, 8, 9, 10, 11 :: int]"
    by (simp add: upto_rec1)
  ultimately show ?thesis by simp
qed

lemma triad_search_nonempty:
  assumes "rootPc \<in> {0..11}"
    and "chordTones = majorTriad rootPc \<or> chordTones = minorTriad rootPc"
  shows "generateChordVoicings chordTones rootPc 1 \<noteq> []"
proof -
  have r: "rootPc \<in> set [0, 1, 2, 3, 4, 5, 6, 7, 8, 9, 10, 11]"
    using assms(1) by (rule roots_list)
  from assms(2) show ?thesis
  proof
    assume c: "chordTones = majorTriad rootPc"
    have "fingeringAccepted (majorTriad rootPc) rootPc (majorFingerings ! nat rootPc)"
      using major_fingerings_accepted r unfolding list_all_iff by blast
    then show ?thesis
      unfolding c fingeringAccepted_def using search_nonempty by blast
  next
    assume c: "chordTones = minorTriad rootPc"
    have "fingeringAccepted (minorTriad rootPc) rootPc (minorFingerings ! nat rootPc)"
      using minor_fingerings_accepted r unfolding list_all_iff by blast
    then show ?thesis
      unfolding c fingeringAccepted_def using search_nonempty by blast
  qed
qed

lemma generated_sounded_count:
  assumes "sv \<in> set (generateChordVoicings chordTones rootPc startFret)"
  shows "3 \<le> soundedCount (v_frets (sv_voicing sv)) \<and> soundedCount (v_frets (sv_voicing sv)) \<le> 6"
proof -
  let ?env = "searchEnv chordTones rootPc startFret"
  obtain sel where acc: "accepts ?env sel" and v: "sv_voicing sv = voicingOf ?env sel"
    using generate_from_selection [OF assms] by blast
  have "minStrings \<le> length (activeChoices sel) \<and> length (activeChoices sel) \<le> maxStrings"
    using acc by (simp add: accepts_def Let_def)
  then show ?thesis
    using v by (simp add: soundedCount_def sounded_count_stringsOf minStrings_def maxStrings_def)
qed

lemma found_shape_sounded_count:
  assumes "generateChordVoicings chordTones rootPc 1 \<noteq> []"
  shows "3 \<le> soundedCount (sh_frets (getBestVoicingShape chordTones rootPc))
       \<and> soundedCount (sh_frets (getBestVoicingShape chordTones rootPc)) \<le> 6"
proof -
  have "(1 :: int) \<in> set [1..TOTAL_FRETS]"
    by (simp add: TOTAL_FRETS_def)
  then have "scanBest chordTones rootPc \<noteq> None"
    unfolding scanBest_def using assms by (rule scan_finds)
  then obtain b where b: "scanBest chordTones rootPc = Some b"
    by blast
  then obtain s where "b \<in> set (generateChordVoicings chordTones rootPc s)"
    using scan_source [of chordTones rootPc "[1..TOTAL_FRETS]" None b]
    by (auto simp: scanBest_def)
  then have "3 \<le> soundedCount (v_frets (sv_voicing b)) \<and> soundedCount (v_frets (sv_voicing b)) \<le> 6"
    by (rule generated_sounded_count)
  then show ?thesis
    using b by (simp add: getBestVoicingShape_def)
qed

text \<open>
  Claim C2. For every root 0 to 11, the driver applied to the major triad (root, root + 4,
  root + 7) or to the minor triad (root, root + 3, root + 7) returns a shape with at least
  3 and at most 6 entries that are not muted. The driver is a total function, so it returns
  a shape in every case.
\<close>

theorem C2_triad_shapes:
  assumes "rootPc \<in> {0..11}"
    and "chordTones = majorTriad rootPc \<or> chordTones = minorTriad rootPc"
  shows "3 \<le> soundedCount (sh_frets (getBestVoicingShape chordTones rootPc))
       \<and> soundedCount (sh_frets (getBestVoicingShape chordTones rootPc)) \<le> 6"
  using triad_search_nonempty [OF assms] by (rule found_shape_sounded_count)

theorem C2_triad_shapes_witness:
  "(1 :: int) \<in> {0..11} \<and> majorTriad 1 = [1, 5, 8]
   \<and> 3 \<le> soundedCount (sh_frets (getBestVoicingShape [1, 5, 8] 1))
   \<and> soundedCount (sh_frets (getBestVoicingShape [1, 5, 8] 1)) \<le> 6"
proof -
  have m: "majorTriad 1 = [1, 5, 8]"
    by (simp add: majorTriad_def)
  show ?thesis
    using C2_triad_shapes [of 1 "[1, 5, 8]"] m by simp
qed

section \<open>The worked example is the whole result at starting fret 1\<close>

lemma Db_unique:
  assumes "validSelection (searchEnv [1, 5, 8] 1 1) sel" and "accepts (searchEnv [1, 5, 8] 1 1) sel"
  shows "sel = DbSelection"
proof -
  let ?env = "searchEnv [1, 5, 8] 1 1"
  have c: "env_candidatesPerString ?env =
             [[\<lparr>cf_fret = 1, cf_pitchClass = 5\<rparr>], [], [\<lparr>cf_fret = 3, cf_pitchClass = 5\<rparr>],
              [\<lparr>cf_fret = 1, cf_pitchClass = 8\<rparr>], [\<lparr>cf_fret = 2, cf_pitchClass = 1\<rparr>],
              [\<lparr>cf_fret = 1, cf_pitchClass = 5\<rparr>]]"
    by code_simp
  have h: "env_hasRequiredToneOnString ?env = [True, False, True, True, True, True]"
    by code_simp
  have len: "length sel = 6"
    using assms(1) by (simp add: validSelection_def)
  have v: "validChoice ?env i (sel ! i)" if "i < 6" for i
    using assms(1) that by (simp add: validSelection_def)
  have m: "sel ! i = None \<longrightarrow> \<not> env_hasRequiredToneOnString ?env ! i" if "i < 6" for i
  proof -
    have "\<forall>i. i < length sel \<and> i < length (env_hasRequiredToneOnString ?env) \<longrightarrow>
              sel ! i = None \<longrightarrow> \<not> env_hasRequiredToneOnString ?env ! i"
      using assms(2) unfolding accepts_def Let_def zip_mute_rule by blast
    then show ?thesis using that len by simp
  qed
  have s0: "sel ! 0 = DbSelection ! 0"
    using v [of 0] m [of 0] by (cases "sel ! 0") (simp_all add: validChoice_def c h DbSelection_def)
  have s1: "sel ! 1 = DbSelection ! 1"
    using v [of 1] m [of 1] by (cases "sel ! 1") (simp_all add: validChoice_def c h DbSelection_def)
  have s2: "sel ! 2 = DbSelection ! 2"
    using v [of 2] m [of 2] by (cases "sel ! 2") (simp_all add: validChoice_def c h DbSelection_def)
  have s3: "sel ! 3 = DbSelection ! 3"
    using v [of 3] m [of 3] by (cases "sel ! 3") (simp_all add: validChoice_def c h DbSelection_def)
  have s4: "sel ! 4 = DbSelection ! 4"
    using v [of 4] m [of 4] by (cases "sel ! 4") (simp_all add: validChoice_def c h DbSelection_def)
  have s5: "sel ! 5 = DbSelection ! 5"
    using v [of 5] m [of 5] by (cases "sel ! 5") (simp_all add: validChoice_def c h DbSelection_def)
  show ?thesis
  proof (rule nth_equalityI)
    show "length sel = length DbSelection"
      using len by (simp add: DbSelection_def)
  next
    fix i
    assume "i < length sel"
    then have "i = 0 \<or> i = 1 \<or> i = 2 \<or> i = 3 \<or> i = 4 \<or> i = 5"
      using len by arith
    then show "sel ! i = DbSelection ! i"
      using s0 s1 s2 s3 s4 s5 by blast
  qed
qed

lemma distinct_singleton_list:
  assumes "distinct xs" and "set xs = {x}"
  shows "xs = [x]"
proof -
  have "length xs = card (set xs)"
    using assms(1) by (simp add: distinct_card)
  then have "length xs = 1"
    using assms(2) by simp
  then obtain y where "xs = [y]"
    by (cases xs) auto
  with assms(2) show ?thesis by simp
qed

lemma Db_enumerated_all: "enumeratedVoicings [1, 5, 8] 1 1 = [DbVoicing]"
proof (rule distinct_singleton_list)
  show "distinct (enumeratedVoicings [1, 5, 8] 1 1)"
    using enumerated_distinct_frets [of "[1, 5, 8]" 1 1] by (rule distinct_map [THEN iffD1, THEN conjunct1])
next
  show "set (enumeratedVoicings [1, 5, 8] 1 1) = {DbVoicing}"
  proof
    show "set (enumeratedVoicings [1, 5, 8] 1 1) \<subseteq> {DbVoicing}"
    proof
      fix v
      assume "v \<in> set (enumeratedVoicings [1, 5, 8] 1 1)"
      then obtain sel where "validSelection (searchEnv [1, 5, 8] 1 1) sel"
        and "accepts (searchEnv [1, 5, 8] 1 1) sel"
        and v: "v = voicingOf (searchEnv [1, 5, 8] 1 1) sel"
        using enumerated_from_selection by blast
      then have "sel = DbSelection"
        by (intro Db_unique)
      then show "v \<in> {DbVoicing}"
        using v by (simp add: Db_voicing)
    qed
  next
    show "{DbVoicing} \<subseteq> set (enumeratedVoicings [1, 5, 8] 1 1)"
      using Db_enumerated by simp
  qed
qed

lemma Db_generated_all: "generateChordVoicings [1, 5, 8] 1 1 = [DbScored]"
  unfolding generateChordVoicings_def Let_def Db_enumerated_all
  using Db_hasFifth by (simp add: Db_score sortByScore_def DbScored_def)

section \<open>The scan of the best-position driver\<close>

lemma generated_head_lowest:
  assumes "generateChordVoicings chordTones rootPc startFret = candidate # rest"
  shows "\<forall>x \<in> set rest. number_le (sv_score candidate) (sv_score x)"
proof -
  have "sorted_wrt (\<lambda>a b. number_le (sv_score a) (sv_score b))
          (generateChordVoicings chordTones rootPc startFret)"
    by (simp add: generateChordVoicings_def Let_def sortByScore_sorted)
  then show ?thesis
    unfolding assms by simp
qed

lemma getBestVoicingShape_scan:
  "getBestVoicingShape chordTones rootPc =
     (case scanBest chordTones rootPc of
        None \<Rightarrow> mutedShape
      | Some b \<Rightarrow> buildChordShape (v_frets (sv_voicing b)) None)"
  by (cases "scanBest chordTones rootPc")
     (simp_all add: getBestVoicingShape_def buildChordShape_all_muted)

subsection \<open>The comparison of scores\<close>

lemma number_less_trans: "number_less a b \<Longrightarrow> number_less b c \<Longrightarrow> number_less a c"
  by (cases a; cases b; cases c) simp_all

lemma number_less_le_trans: "number_less a b \<Longrightarrow> \<not> number_less c b \<Longrightarrow> number_less a c"
  by (cases a; cases b; cases c) simp_all

lemma number_less_irrefl [simp]: "\<not> number_less a a"
  by (cases a) simp_all

subsection \<open>The candidate of a starting fret\<close>

lemma headAt_None: "(headAt chordTones rootPc p = None) = (generateChordVoicings chordTones rootPc p = [])"
  by (simp add: headAt_def split: list.splits)

lemma headAt_Some:
  "(headAt chordTones rootPc p = Some c)
     = (\<exists>rest. generateChordVoicings chordTones rootPc p = c # rest)"
  by (simp add: headAt_def split: list.splits)

lemma bestStep_headAt:
  "bestStep chordTones rootPc p best =
     (case headAt chordTones rootPc p of
        None \<Rightarrow> best
      | Some c \<Rightarrow>
          (case best of
             None \<Rightarrow> Some c
           | Some b \<Rightarrow> if number_less (adjustedScore c p) (storedScore b) then Some c else Some b))"
proof (cases "generateChordVoicings chordTones rootPc p")
  case Nil
  then show ?thesis
    by (simp add: bestStep_empty headAt_def)
next
  case (Cons c rest)
  then show ?thesis
    by (simp add: bestStep_candidate [OF Cons] headAt_def)
qed

text \<open>
  From starting fret 2 on the window starts at the starting fret, so the stored score of a
  candidate is its adjusted score. At starting fret 1 the window starts at fret 0.
\<close>

lemma headAt_stored:
  assumes "headAt chordTones rootPc p = Some c" and "2 \<le> p"
  shows "storedScore c = adjustedScore c p"
proof -
  have "c \<in> set (generateChordVoicings chordTones rootPc p)"
    using assms(1) by (auto simp: headAt_Some)
  then obtain sel where "sv_voicing c = voicingOf (searchEnv chordTones rootPc p) sel"
    using generate_from_selection by blast
  then have "v_windowStart (sv_voicing c) = p"
    using assms(2) by (simp add: windowStartOf_def)
  then show ?thesis
    by (simp add: storedScore_def adjustedScore_def)
qed

subsection \<open>The result of the scan\<close>

lemma winsScan_keep:
  assumes w: "winsScan chordTones rootPc n p b" and p: "p \<le> n"
    and h: "case headAt chordTones rootPc (n + 1) of
              None \<Rightarrow> True
            | Some c \<Rightarrow> \<not> number_less (adjustedScore c (n + 1)) (storedScore b)"
  shows "winsScan chordTones rootPc (n + 1) p b"
  unfolding winsScan_def
proof (intro conjI ballI)
  show "headAt chordTones rootPc p = Some b"
    using w by (simp add: winsScan_def)
next
  fix q :: int
  assume "q \<in> {1..n + 1}"
  then consider "q \<in> {1..n}" | "q = n + 1"
    by (cases "q = n + 1") auto
  then show "case headAt chordTones rootPc q of
               None \<Rightarrow> True
             | Some c \<Rightarrow>
                 (q < p \<longrightarrow> number_less (adjustedScore b p) (storedScore c))
                 \<and> (p < q \<longrightarrow> \<not> number_less (adjustedScore c q) (storedScore b))"
  proof cases
    case 1
    then show ?thesis
      using w by (simp add: winsScan_def)
  next
    case 2
    then show ?thesis
      using h p by (simp split: option.splits)
  qed
qed

lemma winsScan_replace:
  assumes w: "winsScan chordTones rootPc n p b" and p: "1 \<le> p" "p \<le> n"
    and h: "headAt chordTones rootPc (n + 1) = Some c"
    and l: "number_less (adjustedScore c (n + 1)) (storedScore b)"
  shows "winsScan chordTones rootPc (n + 1) (n + 1) c"
  unfolding winsScan_def
proof (intro conjI ballI)
  show "headAt chordTones rootPc (n + 1) = Some c"
    by (rule h)
next
  fix q :: int
  assume q: "q \<in> {1..n + 1}"
  have hb: "headAt chordTones rootPc p = Some b"
    using w by (simp add: winsScan_def)
  have "number_less (adjustedScore c (n + 1)) (storedScore d)"
    if d: "headAt chordTones rootPc q = Some d" and qn: "q < n + 1" for d
  proof -
    have qin: "q \<in> {1..n}"
      using q qn by simp
    have wq: "(q < p \<longrightarrow> number_less (adjustedScore b p) (storedScore d))
            \<and> (p < q \<longrightarrow> \<not> number_less (adjustedScore d q) (storedScore b))"
      using w qin d unfolding winsScan_def by (auto dest!: bspec [where x = q])
    consider "q = p" | "q < p" | "p < q"
      by linarith
    then show ?thesis
    proof cases
      case 1
      then have "d = b"
        using d hb by simp
      then show ?thesis
        using l by simp
    next
      case 2
      then have "2 \<le> p"
        using q by simp
      then have "storedScore b = adjustedScore b p"
        using hb by (intro headAt_stored)
      moreover have "number_less (adjustedScore b p) (storedScore d)"
        using wq 2 by simp
      ultimately show ?thesis
        using l number_less_trans by metis
    next
      case 3
      then have "2 \<le> q"
        using p by simp
      then have "storedScore d = adjustedScore d q"
        using d by (intro headAt_stored)
      moreover have "\<not> number_less (adjustedScore d q) (storedScore b)"
        using wq 3 by simp
      ultimately show ?thesis
        using l number_less_le_trans by metis
    qed
  qed
  then show "case headAt chordTones rootPc q of
               None \<Rightarrow> True
             | Some d \<Rightarrow>
                 (q < n + 1 \<longrightarrow> number_less (adjustedScore c (n + 1)) (storedScore d))
                 \<and> (n + 1 < q \<longrightarrow> \<not> number_less (adjustedScore d q) (storedScore c))"
    using q by (simp split: option.splits)
qed

lemma winsScan_first:
  assumes "\<forall>q \<in> {1..n}. headAt chordTones rootPc q = None"
    and "headAt chordTones rootPc (n + 1) = Some c"
  shows "winsScan chordTones rootPc (n + 1) (n + 1) c"
  unfolding winsScan_def
proof (intro conjI ballI)
  show "headAt chordTones rootPc (n + 1) = Some c"
    by (rule assms(2))
next
  fix q :: int
  assume "q \<in> {1..n + 1}"
  then consider "q \<in> {1..n}" | "q = n + 1"
    by (cases "q = n + 1") auto
  then show "case headAt chordTones rootPc q of
               None \<Rightarrow> True
             | Some d \<Rightarrow>
                 (q < n + 1 \<longrightarrow> number_less (adjustedScore c (n + 1)) (storedScore d))
                 \<and> (n + 1 < q \<longrightarrow> \<not> number_less (adjustedScore d q) (storedScore c))"
    using assms by cases simp_all
qed

lemma scan_prefix_nat:
  "case fold (bestStep chordTones rootPc) [1..int k] None of
     None \<Rightarrow> \<forall>q \<in> {1..int k}. headAt chordTones rootPc q = None
   | Some b \<Rightarrow> \<exists>p \<in> {1..int k}. winsScan chordTones rootPc (int k) p b"
proof (induction k)
  case 0
  then show ?case by simp
next
  case (Suc k)
  let ?n = "int k"
  let ?best = "fold (bestStep chordTones rootPc) [1..?n] None"
  have up: "[1..?n + 1] = [1..?n] @ [?n + 1]"
    using upto_rec2 [of 1 "?n + 1"] by simp
  have f: "fold (bestStep chordTones rootPc) [1..?n + 1] None
             = bestStep chordTones rootPc (?n + 1) ?best"
    unfolding up by simp
  have s: "int (Suc k) = ?n + 1"
    by simp
  show ?case
    unfolding s f
  proof (cases "headAt chordTones rootPc (?n + 1)")
    case None
    show "case bestStep chordTones rootPc (?n + 1) ?best of
            None \<Rightarrow> \<forall>q \<in> {1..?n + 1}. headAt chordTones rootPc q = None
          | Some b \<Rightarrow> \<exists>p \<in> {1..?n + 1}. winsScan chordTones rootPc (?n + 1) p b"
    proof (cases ?best)
      case n: None
      have "\<forall>q \<in> {1..?n + 1}. headAt chordTones rootPc q = None"
      proof
        fix q :: int
        assume "q \<in> {1..?n + 1}"
        then consider "q \<in> {1..?n}" | "q = ?n + 1"
          by (cases "q = ?n + 1") auto
        then show "headAt chordTones rootPc q = None"
          using Suc.IH n None by cases simp_all
      qed
      then show ?thesis
        by (simp add: bestStep_headAt None n)
    next
      case (Some b)
      then obtain p where p: "p \<in> {1..?n}" and w: "winsScan chordTones rootPc ?n p b"
        using Suc.IH by auto
      have "winsScan chordTones rootPc (?n + 1) p b"
        using w p None by (intro winsScan_keep) simp_all
      moreover have "p \<in> {1..?n + 1}"
        using p by simp
      ultimately show ?thesis
        by (auto simp: bestStep_headAt None Some)
    qed
  next
    case c: (Some c)
    show "case bestStep chordTones rootPc (?n + 1) ?best of
            None \<Rightarrow> \<forall>q \<in> {1..?n + 1}. headAt chordTones rootPc q = None
          | Some b \<Rightarrow> \<exists>p \<in> {1..?n + 1}. winsScan chordTones rootPc (?n + 1) p b"
    proof (cases ?best)
      case None
      then have "winsScan chordTones rootPc (?n + 1) (?n + 1) c"
        using Suc.IH c by (intro winsScan_first) simp_all
      then show ?thesis
        by (auto simp: bestStep_headAt None c)
    next
      case (Some b)
      then obtain p where p: "p \<in> {1..?n}" and w: "winsScan chordTones rootPc ?n p b"
        using Suc.IH by auto
      show ?thesis
      proof (cases "number_less (adjustedScore c (?n + 1)) (storedScore b)")
        case True
        have "winsScan chordTones rootPc (?n + 1) (?n + 1) c"
          using w p c True by (intro winsScan_replace [where p = p and b = b]) simp_all
        then show ?thesis
          by (auto simp: bestStep_headAt Some c True)
      next
        case False
        have "winsScan chordTones rootPc (?n + 1) p b"
          using w p c False by (intro winsScan_keep) simp_all
        moreover have "p \<in> {1..?n + 1}"
          using p by simp
        ultimately show ?thesis
          by (auto simp: bestStep_headAt Some c False)
      qed
    qed
  qed
qed

lemma scan_prefix:
  "case fold (bestStep chordTones rootPc) [1..n] None of
     None \<Rightarrow> \<forall>q \<in> {1..n}. headAt chordTones rootPc q = None
   | Some b \<Rightarrow> \<exists>p \<in> {1..n}. winsScan chordTones rootPc n p b"
proof (cases "0 \<le> n")
  case True
  then obtain k where k: "n = int k"
    using zero_le_imp_eq_int by blast
  show ?thesis
    unfolding k by (rule scan_prefix_nat)
next
  case False
  then show ?thesis by simp
qed

subsection \<open>The first result of a search\<close>

text \<open>
  The searches behind the examples are not run: every valid selection is in the list of all
  selections, so a property checked for each accepted selection of that list holds for each
  result of the search.
\<close>

lemma validSelection_all:
  assumes "validSelection (searchEnv chordTones rootPc startFret) sel"
  shows "sel \<in> set (allSelections (searchEnv chordTones rootPc startFret))"
proof -
  let ?env = "searchEnv chordTones rootPc startFret"
  have len: "length sel = 6"
    using assms by (simp add: validSelection_def)
  have "sel ! i \<in> set (None # map Some (env_candidatesPerString ?env ! i))" if "i < 6" for i
  proof -
    have "validChoice ?env i (sel ! i)"
      using assms that by (simp add: validSelection_def)
    then show ?thesis
      by (cases "sel ! i") (simp_all add: validChoice_def)
  qed
  then have "list_all2 (\<lambda>x ys. x \<in> set ys) sel
               (map (\<lambda>candidates. None # map Some candidates) (env_candidatesPerString ?env))"
    using len by (simp add: list_all2_conv_all_nth)
  then show ?thesis
    by (simp add: allSelections_def product_lists_set)
qed

lemma generate_scoredOf:
  assumes "sv \<in> set (generateChordVoicings chordTones rootPc startFret)"
  shows "\<exists>sel \<in> set (allSelections (searchEnv chordTones rootPc startFret)).
           accepts (searchEnv chordTones rootPc startFret) sel
           \<and> sv = scoredOf (searchEnv chordTones rootPc startFret) sel"
proof -
  let ?env = "searchEnv chordTones rootPc startFret"
  obtain sel where valid: "validSelection ?env sel" and acc: "accepts ?env sel"
    and v: "sv_voicing sv = voicingOf ?env sel"
    using generate_from_selection [OF assms] by blast
  have "sv = scoredOf ?env sel"
    using generate_member(2) [OF assms] v by (simp add: scoredOf_def)
  then show ?thesis
    using validSelection_all [OF valid] acc by blast
qed

lemma generate_head:
  assumes x: "x \<in> set (generateChordVoicings chordTones rootPc startFret)"
    and low: "lowestAt chordTones rootPc startFret x"
  shows "headAt chordTones rootPc startFret = Some x"
proof (cases "generateChordVoicings chordTones rootPc startFret")
  case Nil
  then show ?thesis
    using x by simp
next
  case (Cons h rest)
  have "\<forall>y \<in> set rest. number_le (sv_score h) (sv_score y)"
    using Cons by (rule generated_head_lowest)
  then have "x = h \<or> \<not> number_less (sv_score x) (sv_score h)"
    using x unfolding Cons by (auto simp: number_le_def)
  moreover have "h \<in> set (generateChordVoicings chordTones rootPc startFret)"
    unfolding Cons by simp
  then have "h \<in> set (map (scoredOf (searchEnv chordTones rootPc startFret))
                       (filter (accepts (searchEnv chordTones rootPc startFret))
                          (allSelections (searchEnv chordTones rootPc startFret))))"
    using generate_scoredOf by fastforce
  then have "h = x \<or> number_less (sv_score x) (sv_score h)"
    using low unfolding lowestAt_def Let_def by blast
  ultimately have "h = x"
    by blast
  then show ?thesis
    by (simp add: headAt_def Cons)
qed

lemma bestStep_replace:
  assumes "x \<in> set (generateChordVoicings chordTones rootPc startFret)"
    and "lowestAt chordTones rootPc startFret x"
    and "number_less (adjustedScore x startFret) (storedScore b)"
  shows "bestStep chordTones rootPc startFret (Some b) = Some x"
  using generate_head [OF assms(1,2)] assms(3) by (simp add: bestStep_headAt)

lemma bestStep_first:
  assumes "x \<in> set (generateChordVoicings chordTones rootPc startFret)"
    and "lowestAt chordTones rootPc startFret x"
  shows "bestStep chordTones rootPc startFret None = Some x"
  using generate_head [OF assms] by (simp add: bestStep_headAt)

lemma bestStep_hold:
  assumes "holdsAt chordTones rootPc startFret b"
  shows "bestStep chordTones rootPc startFret (Some b) = Some b"
proof (cases "headAt chordTones rootPc startFret")
  case None
  then show ?thesis
    by (simp add: bestStep_headAt)
next
  case (Some c)
  then have "c \<in> set (generateChordVoicings chordTones rootPc startFret)"
    by (auto simp: headAt_Some)
  then have "c \<in> set (map (scoredOf (searchEnv chordTones rootPc startFret))
                       (filter (accepts (searchEnv chordTones rootPc startFret))
                          (allSelections (searchEnv chordTones rootPc startFret))))"
    using generate_scoredOf by fastforce
  then have "\<not> number_less (adjustedScore c startFret) (storedScore b)"
    using assms unfolding holdsAt_def Let_def by blast
  then show ?thesis
    by (simp add: bestStep_headAt Some)
qed

lemma generate_keeps_no_fifth:
  assumes "validSelection (searchEnv chordTones rootPc startFret) sel
           \<and> accepts (searchEnv chordTones rootPc startFret) sel"
    and "getFifthIntervals (chordIntervals chordTones rootPc) = []"
  shows "scoredOf (searchEnv chordTones rootPc startFret) sel
           \<in> set (generateChordVoicings chordTones rootPc startFret)"
proof -
  have "\<not> hasFifth w rootPc (chordIntervals chordTones rootPc)" for w
    using assms(2) by (simp add: hasFifth_def list_ex_iff split: option.splits)
  moreover have "voicingOf (searchEnv chordTones rootPc startFret) sel
                   \<in> set (enumeratedVoicings chordTones rootPc startFret)"
    using assms(1) by (intro enumerated_complete) simp_all
  ultimately show ?thesis
    by (simp add: generateChordVoicings_def Let_def list_ex_iff scoredOf_def)
qed

subsection \<open>The positions of E flat with C\<close>

lemma Eb_no_fifth: "getFifthIntervals (chordIntervals [0, 3] 3) = []"
  by code_simp

lemma Eb_selections:
  "validSelection (searchEnv [0, 3] 3 1) EbOpenSelection
   \<and> accepts (searchEnv [0, 3] 3 1) EbOpenSelection"
  "validSelection (searchEnv [0, 3] 3 3) EbLowSelection
   \<and> accepts (searchEnv [0, 3] 3 3) EbLowSelection"
  "validSelection (searchEnv [0, 3] 3 7) EbHighSelection
   \<and> accepts (searchEnv [0, 3] 3 7) EbHighSelection"
  by code_simp+

lemma Eb_scored:
  "scoredOf (searchEnv [0, 3] 3 1) EbOpenSelection = EbOpen"
  "scoredOf (searchEnv [0, 3] 3 3) EbLowSelection = EbLow"
  "scoredOf (searchEnv [0, 3] 3 7) EbHighSelection = EbHigh"
  by code_simp+

lemma EbOpen_generated: "EbOpen \<in> set (generateChordVoicings [0, 3] 3 1)"
  using generate_keeps_no_fifth [OF Eb_selections(1) Eb_no_fifth] by (simp add: Eb_scored)

lemma EbLow_generated: "EbLow \<in> set (generateChordVoicings [0, 3] 3 3)"
  using generate_keeps_no_fifth [OF Eb_selections(2) Eb_no_fifth] by (simp add: Eb_scored)

lemma EbHigh_generated: "EbHigh \<in> set (generateChordVoicings [0, 3] 3 7)"
  using generate_keeps_no_fifth [OF Eb_selections(3) Eb_no_fifth] by (simp add: Eb_scored)

lemma Eb_lowest:
  "lowestAt [0, 3] 3 1 EbOpen"
  "lowestAt [0, 3] 3 3 EbLow"
  "lowestAt [0, 3] 3 7 EbHigh"
  by code_simp+

lemma Eb_holds:
  "holdsAt [0, 3] 3 2 EbOpen"
  "holdsAt [0, 3] 3 4 EbLow"
  "holdsAt [0, 3] 3 5 EbLow"
  "holdsAt [0, 3] 3 6 EbLow"
  "holdsAt [0, 3] 3 8 EbHigh"
  "holdsAt [0, 3] 3 9 EbHigh"
  "holdsAt [0, 3] 3 10 EbHigh"
  "holdsAt [0, 3] 3 11 EbHigh"
  "holdsAt [0, 3] 3 12 EbHigh"
  by code_simp+

lemma Eb_replaces:
  "number_less (adjustedScore EbLow 3) (storedScore EbOpen)"
  "number_less (adjustedScore EbHigh 7) (storedScore EbLow)"
  by code_simp+

lemma EbHigh_head: "headAt [0, 3] 3 7 = Some EbHigh"
  using EbHigh_generated Eb_lowest(3) by (rule generate_head)

lemma Eb_search: "generateChordVoicings [0, 3] 3 7 = EbHigh # tl (generateChordVoicings [0, 3] 3 7)"
  using EbHigh_head by (auto simp: headAt_Some)

lemma Eb_scan: "fold (bestStep [0, 3] 3) [1..12] None = Some EbHigh"
proof -
  have s: "bestStep [0, 3] 3 1 None = Some EbOpen"
    "bestStep [0, 3] 3 2 (Some EbOpen) = Some EbOpen"
    "bestStep [0, 3] 3 3 (Some EbOpen) = Some EbLow"
    "bestStep [0, 3] 3 4 (Some EbLow) = Some EbLow"
    "bestStep [0, 3] 3 5 (Some EbLow) = Some EbLow"
    "bestStep [0, 3] 3 6 (Some EbLow) = Some EbLow"
    "bestStep [0, 3] 3 7 (Some EbLow) = Some EbHigh"
    "bestStep [0, 3] 3 8 (Some EbHigh) = Some EbHigh"
    "bestStep [0, 3] 3 9 (Some EbHigh) = Some EbHigh"
    "bestStep [0, 3] 3 10 (Some EbHigh) = Some EbHigh"
    "bestStep [0, 3] 3 11 (Some EbHigh) = Some EbHigh"
    "bestStep [0, 3] 3 12 (Some EbHigh) = Some EbHigh"
    using EbOpen_generated EbLow_generated EbHigh_generated Eb_lowest Eb_holds Eb_replaces
    by (simp_all add: bestStep_first bestStep_hold bestStep_replace)
  have "[1..12] = [1, 2, 3, 4, 5, 6, 7, 8, 9, 10, 11, 12 :: int]"
    using positions by (simp add: TOTAL_FRETS_def)
  then show ?thesis
    by (simp add: s)
qed

lemma Eb_shape:
  "sh_frets (buildChordShape (v_frets (sv_voicing EbHigh)) None)
     = [Fret 8, Muted, Muted, Fret 8, Muted, Fret 8]"
  by (simp add: buildChordShape_def Let_def EbHigh_def)

lemma Db_head: "headAt [1, 5, 8] 1 1 = Some DbScored"
  by (simp add: headAt_def Db_generated_all)

lemma example_scores:
  "adjustedScore DbScored 1 = Finite (17 / 2)"
  "storedScore storedHigh = Finite 20"
  "storedScore storedTie = Finite (17 / 2)"
  "storedScore DbScored = Finite (2308094809027379 / 281474976710656)"
  "adjustedScore EbHigh 7 = Finite (2730307274093363 / 281474976710656)"
  "storedScore EbLow = Finite (5460614548186727 / 562949953421312)"
  by code_simp+

text \<open>
  Claim C6. The driver visits the starting frets 1 to 12 in this order, beginning without
  a stored best, and builds its result from the stored best at the end. At a starting fret
  where the search returns nothing the stored best is kept. Otherwise the candidate is the
  first element of the search result, whose score is lowest; its score plus 0.3 times the
  starting fret is compared with the score of the stored best plus 0.3 times the window
  start recorded in the stored best, both sums and both products being formed in the double
  arithmetic of the program; the candidate replaces the stored best exactly when there is
  no stored best or the first number is strictly smaller. In consequence, after the
  starting frets 1 to \<open>n\<close> nothing is stored exactly when no search has returned anything,
  and otherwise the stored best is the candidate of one of these starting frets: its
  adjusted score was strictly below the stored score of every earlier candidate, and no
  later candidate has an adjusted score strictly below its stored score.
\<close>

theorem C6_position_scan:
  "scanBest chordTones rootPc
     = fold (bestStep chordTones rootPc) [1, 2, 3, 4, 5, 6, 7, 8, 9, 10, 11, 12] None
   \<and> scanBest chordTones rootPc = fold (bestStep chordTones rootPc) [1..12] None
   \<and> getBestVoicingShape chordTones rootPc =
       (case scanBest chordTones rootPc of
          None \<Rightarrow> mutedShape
        | Some b \<Rightarrow> buildChordShape (v_frets (sv_voicing b)) None)
   \<and> (generateChordVoicings chordTones rootPc startFret = []
        \<longrightarrow> bestStep chordTones rootPc startFret best = best)
   \<and> (generateChordVoicings chordTones rootPc startFret = candidate # rest
        \<longrightarrow> (\<forall>x \<in> set rest. number_le (sv_score candidate) (sv_score x))
          \<and> bestStep chordTones rootPc startFret best =
              (case best of
                 None \<Rightarrow> Some candidate
               | Some b \<Rightarrow> if number_less (adjustedScore candidate startFret) (storedScore b)
                           then Some candidate else Some b))
   \<and> (case fold (bestStep chordTones rootPc) [1..n] None of
         None \<Rightarrow> \<forall>q \<in> {1..n}. headAt chordTones rootPc q = None
       | Some b \<Rightarrow> \<exists>p \<in> {1..n}. winsScan chordTones rootPc n p b)"
proof -
  have "scanBest chordTones rootPc
          = fold (bestStep chordTones rootPc) [1, 2, 3, 4, 5, 6, 7, 8, 9, 10, 11, 12] None"
    unfolding scanBest_def positions ..
  moreover have "scanBest chordTones rootPc = fold (bestStep chordTones rootPc) [1..12] None"
    by (simp add: scanBest_def TOTAL_FRETS_def)
  ultimately show ?thesis
    using getBestVoicingShape_scan [of chordTones rootPc]
      bestStep_empty [of chordTones rootPc startFret best]
      bestStep_candidate [of chordTones rootPc startFret candidate rest best]
      generated_head_lowest [of chordTones rootPc startFret candidate rest]
      scan_prefix [where n = n and chordTones = chordTones and rootPc = rootPc]
    by blast
qed

theorem C6_position_scan_witness:
  "generateChordVoicings [1, 5, 8] 1 1 = [DbScored]
   \<and> bestStep [1, 5, 8] 1 1 None = Some DbScored
   \<and> adjustedScore DbScored 1 = Finite (17 / 2)
   \<and> storedScore storedHigh = Finite 20
   \<and> bestStep [1, 5, 8] 1 1 (Some storedHigh) = Some DbScored
   \<and> storedScore storedTie = Finite (17 / 2)
   \<and> bestStep [1, 5, 8] 1 1 (Some storedTie) = Some storedTie
   \<and> generateChordVoicings [2] 0 1 = []
   \<and> bestStep [2] 0 1 (Some storedHigh) = Some storedHigh
   \<and> EbLow \<in> set (generateChordVoicings [0, 3] 3 3)
   \<and> generateChordVoicings [0, 3] 3 7 = EbHigh # tl (generateChordVoicings [0, 3] 3 7)
   \<and> adjustedScore EbHigh 7 = Finite (2730307274093363 / 281474976710656)
   \<and> storedScore EbLow = Finite (5460614548186727 / 562949953421312)
   \<and> bestStep [0, 3] 3 7 (Some EbLow) = Some EbHigh
   \<and> scanBest [0, 3] 3 = Some EbHigh
   \<and> sh_frets (getBestVoicingShape [0, 3] 3) = [Fret 8, Muted, Muted, Fret 8, Muted, Fret 8]
   \<and> (\<exists>p. winsScan [0, 3] 3 12 p EbHigh)
   \<and> fold (bestStep [1, 5, 8] 1) [1..1] None = Some DbScored
   \<and> headAt [1, 5, 8] 1 1 = Some DbScored
   \<and> fold (bestStep [2] 0) [1..12] None = None
   \<and> headAt [2] 0 12 = None"
proof -
  have e: "generateChordVoicings [2] 0 q = []" for q
    by (rule no_root_no_voicing) simp
  have db: "generateChordVoicings [1, 5, 8] 1 1 = [DbScored]
          \<and> bestStep [1, 5, 8] 1 1 None = Some DbScored
          \<and> adjustedScore DbScored 1 = Finite (17 / 2)
          \<and> storedScore storedHigh = Finite 20
          \<and> bestStep [1, 5, 8] 1 1 (Some storedHigh) = Some DbScored
          \<and> storedScore storedTie = Finite (17 / 2)
          \<and> bestStep [1, 5, 8] 1 1 (Some storedTie) = Some storedTie
          \<and> generateChordVoicings [2] 0 1 = []
          \<and> bestStep [2] 0 1 (Some storedHigh) = Some storedHigh"
    using C6_position_scan [where chordTones = "[1, 5, 8]" and rootPc = 1 and startFret = 1
            and best = None and candidate = DbScored and rest = "[]" and n = 0]
      C6_position_scan [where chordTones = "[1, 5, 8]" and rootPc = 1 and startFret = 1
            and best = "Some storedHigh" and candidate = DbScored and rest = "[]" and n = 0]
      C6_position_scan [where chordTones = "[1, 5, 8]" and rootPc = 1 and startFret = 1
            and best = "Some storedTie" and candidate = DbScored and rest = "[]" and n = 0]
      C6_position_scan [where chordTones = "[2]" and rootPc = 0 and startFret = 1
            and best = "Some storedHigh" and candidate = DbScored and rest = "[]" and n = 0]
      Db_generated_all e [of 1]
    by (simp add: example_scores)
  have step: "bestStep [0, 3] 3 7 (Some EbLow) = Some EbHigh"
    using C6_position_scan [where chordTones = "[0, 3]" and rootPc = 3 and startFret = 7
            and best = "Some EbLow" and candidate = EbHigh
            and rest = "tl (generateChordVoicings [0, 3] 3 7)" and n = 0] Eb_search
    by (simp add: example_scores)
  note scan = C6_position_scan [where chordTones = "[0, 3]" and rootPc = 3 and startFret = 7
            and best = "Some EbLow" and candidate = EbHigh
            and rest = "tl (generateChordVoicings [0, 3] 3 7)" and n = 12]
  have sb: "scanBest [0, 3] 3 = Some EbHigh"
    using scan [THEN conjunct2, THEN conjunct1] Eb_scan by (rule trans)
  have "getBestVoicingShape [0, 3] 3 = buildChordShape (v_frets (sv_voicing EbHigh)) None"
    using scan [THEN conjunct2, THEN conjunct2, THEN conjunct1] by (simp only: sb option.case)
  then have shape: "sh_frets (getBestVoicingShape [0, 3] 3)
                      = [Fret 8, Muted, Muted, Fret 8, Muted, Fret 8]"
    by (simp only: Eb_shape)
  have "\<exists>p \<in> {1..12}. winsScan [0, 3] 3 12 p EbHigh"
    using scan [THEN conjunct2, THEN conjunct2, THEN conjunct2, THEN conjunct2, THEN conjunct2]
    by (simp only: Eb_scan option.case)
  then have wins: "\<exists>p. winsScan [0, 3] 3 12 p EbHigh"
    by blast
  have f1: "fold (bestStep [1, 5, 8] 1) [1..1] None = Some DbScored"
    by (simp add: bestStep_headAt Db_head)
  have f2: "fold (bestStep [2] 0) [1..12] None = None"
    by (simp add: positions [unfolded TOTAL_FRETS_def] bestStep_empty e)
  have "\<exists>p \<in> {1..1}. winsScan [1, 5, 8] 1 1 p DbScored"
    using C6_position_scan [where chordTones = "[1, 5, 8]" and rootPc = 1 and startFret = 1
            and best = None and candidate = DbScored and rest = "[]" and n = 1,
            THEN conjunct2, THEN conjunct2, THEN conjunct2, THEN conjunct2, THEN conjunct2]
    by (simp only: f1 option.case)
  then have h1: "headAt [1, 5, 8] 1 1 = Some DbScored"
    by (simp add: winsScan_def)
  have "\<forall>q \<in> {1..12}. headAt [2] 0 q = None"
    using C6_position_scan [where chordTones = "[2]" and rootPc = 0 and startFret = 1
            and best = None and candidate = DbScored and rest = "[]" and n = 12,
            THEN conjunct2, THEN conjunct2, THEN conjunct2, THEN conjunct2, THEN conjunct2]
    by (simp only: f2 option.case)
  then have h2: "headAt [2] 0 12 = None"
    by simp
  show ?thesis
    using db EbLow_generated Eb_search example_scores(5,6) step sb shape wins f1 h1 f2 h2
    by (intro conjI) blast+
qed

section \<open>Reference shapes\<close>

lemma diagram_shape:
  "d_shape (diatonicChordDiagram tonality scaleNotes degreeLabels nt index) =
     (case PREFERRED_SHAPES (d_name (diatonicChordDiagram tonality scaleNotes degreeLabels nt index)) of
        Some preferred \<Rightarrow> buildChordShape (ps_frets preferred) (Some (ps_fingers preferred))
      | None \<Rightarrow>
          getBestVoicingShape
            [sn_pitchClass (scaleNotes ! (index mod 7)),
             sn_pitchClass (scaleNotes ! ((index + 2) mod 7)),
             sn_pitchClass (scaleNotes ! ((index + 4) mod 7))]
            (sn_pitchClass nt))"
  by (simp only: diatonicChordDiagram_def Let_def DiatonicChordDiagram.select_convs)

lemma diagrams_members:
  assumes "getDiatonicChordDiagrams currentKey spellingMode tonality = Inr diagrams"
    and "d \<in> set diagrams"
  shows "\<exists>scaleNotes degreeLabels nt index.
           d = diatonicChordDiagram tonality scaleNotes degreeLabels nt index"
proof (cases "getScaleNotes (stripMinorSuffix (if tonality = Major then key_major currentKey
                                               else key_minor currentKey))
                (if tonality = Major then MAJOR_INTERVALS else MINOR_INTERVALS)")
  case (Inl e)
  then show ?thesis
    using assms(1) by (simp add: getDiatonicChordDiagrams_def Let_def)
next
  case (Inr scaleNotes)
  then have "diagrams =
      map (\<lambda>(nt, index). diatonicChordDiagram tonality scaleNotes
                            (if tonality = Major then ROMAN_MAJOR else ROMAN_MINOR) nt index)
        (zip scaleNotes [0..<length scaleNotes])"
    using assms(1) by (simp add: getDiatonicChordDiagrams_def Let_def)
  then obtain nt index where
    "d = diatonicChordDiagram tonality scaleNotes
           (if tonality = Major then ROMAN_MAJOR else ROMAN_MINOR) nt index"
    using assms(2) by auto
  then show ?thesis by blast
qed

lemma buildChordShape_fingers [simp]:
  "sh_fingers (buildChordShape frets (Some fingers)) = fingers"
  by (simp add: buildChordShape_def Let_def)

lemma buildChordShape_barre [simp]:
  "sh_barre (buildChordShape frets fingers) = detectBarre frets"
  by (simp add: buildChordShape_def Let_def)

text \<open>
  Claim C8. For every diagram that \<open>getDiatonicChordDiagrams\<close> returns whose chord name is
  a key of the table of reference shapes, the shape is the one built by \<open>buildChordShape\<close>
  from the frets and fingers of the table entry: its frets and its fingers are those of the
  entry, and its barre is the one detected in those frets. The voicing search has no part
  in it.
\<close>

theorem C8_reference_shape:
  assumes "getDiatonicChordDiagrams currentKey spellingMode tonality = Inr diagrams"
    and "d \<in> set diagrams"
    and "PREFERRED_SHAPES (d_name d) = Some preferred"
  shows "d_shape d = buildChordShape (ps_frets preferred) (Some (ps_fingers preferred))
       \<and> sh_frets (d_shape d) = ps_frets preferred
       \<and> sh_fingers (d_shape d) = ps_fingers preferred
       \<and> sh_barre (d_shape d) = detectBarre (ps_frets preferred)"
proof -
  obtain scaleNotes degreeLabels nt index
    where "d = diatonicChordDiagram tonality scaleNotes degreeLabels nt index"
    using diagrams_members [OF assms(1,2)] by blast
  then have "d_shape d = buildChordShape (ps_frets preferred) (Some (ps_fingers preferred))"
    using assms(3) diagram_shape [of tonality scaleNotes degreeLabels nt index] by simp
  then show ?thesis
    by simp
qed

lemma CMajor_scale: "getScaleNotes (stripMinorSuffix ''C'') MAJOR_INTERVALS = Inr CMajorScale"
  by code_simp

lemma CMajor_diagrams:
  "getDiatonicChordDiagrams CMajorKey Auto Major =
     Inr (map (\<lambda>(note, index). diatonicChordDiagram Major CMajorScale ROMAN_MAJOR note index)
            (zip CMajorScale [0..<length CMajorScale]))"
  by (simp add: getDiatonicChordDiagrams_def Let_def CMajorKey_def CMajor_scale)

lemma FDiagram_member:
  "FDiagram \<in> set (map (\<lambda>(note, index). diatonicChordDiagram Major CMajorScale ROMAN_MAJOR note index)
                     (zip CMajorScale [0..<length CMajorScale]))"
proof -
  have "(CMajorScale ! 3, 3) \<in> set (zip CMajorScale [0..<length CMajorScale])"
    by (simp add: CMajorScale_def upt_rec)
  then show ?thesis
    unfolding FDiagram_def by force
qed

lemma FDiagram_name: "d_name FDiagram = ''F''"
  by (simp add: FDiagram_def diatonicChordDiagram_def Let_def CMajorScale_def
        normalizePitch_mod getChordQuality_def)

lemma F_preferred:
  "PREFERRED_SHAPES ''F'' =
     Some \<lparr>ps_frets = [Fret 1, Fret 3, Fret 3, Fret 2, Fret 1, Fret 1],
           ps_fingers = [Some 1, Some 3, Some 4, Some 2, Some 1, Some 1]\<rparr>"
  by (simp add: PREFERRED_SHAPES_def)

theorem C8_reference_shape_witness:
  "getDiatonicChordDiagrams CMajorKey Auto Major =
     Inr (map (\<lambda>(note, index). diatonicChordDiagram Major CMajorScale ROMAN_MAJOR note index)
            (zip CMajorScale [0..<length CMajorScale]))
   \<and> FDiagram \<in> set (map (\<lambda>(note, index). diatonicChordDiagram Major CMajorScale ROMAN_MAJOR note index)
                        (zip CMajorScale [0..<length CMajorScale]))
   \<and> d_name FDiagram = ''F''
   \<and> PREFERRED_SHAPES ''F'' =
       Some \<lparr>ps_frets = [Fret 1, Fret 3, Fret 3, Fret 2, Fret 1, Fret 1],
             ps_fingers = [Some 1, Some 3, Some 4, Some 2, Some 1, Some 1]\<rparr>
   \<and> sh_frets (d_shape FDiagram) = [Fret 1, Fret 3, Fret 3, Fret 2, Fret 1, Fret 1]
   \<and> sh_fingers (d_shape FDiagram) = [Some 1, Some 3, Some 4, Some 2, Some 1, Some 1]
   \<and> sh_barre (d_shape FDiagram) = Some \<lparr>b_fret = 1, b_fromString = 0, b_toString = 5, b_finger = 1\<rparr>"
proof -
  have p: "PREFERRED_SHAPES (d_name FDiagram) =
     Some \<lparr>ps_frets = [Fret 1, Fret 3, Fret 3, Fret 2, Fret 1, Fret 1],
           ps_fingers = [Some 1, Some 3, Some 4, Some 2, Some 1, Some 1]\<rparr>"
    by (simp only: FDiagram_name F_preferred)
  show ?thesis
    using C8_reference_shape [OF CMajor_diagrams FDiagram_member p]
      CMajor_diagrams FDiagram_member FDiagram_name F_preferred detectBarre_F_shape
    by simp
qed


end
